theory Spec2Isabelle
  imports Complex_Main
begin

section \<open>Route generator (generate-route.mjs): planar geometry\<close>

text \<open>
  In the geometry of the route JavaScript numbers are modelled as exact reals:
  \<open>Math.hypot\<close> is the Euclidean norm, \<open>Math.round\<close> rounds half up, \<open>Math.floor\<close> is the
  floor. A route point \<open>[x, z]\<close> is a pair of reals. (The sums of the shortest-path search
  are rounded as doubles are, see step 3.)
\<close>

type_synonym point = "real \<times> real"

definition hypot :: "real \<Rightarrow> real \<Rightarrow> real" where
  "hypot a b = sqrt (a * a + b * b)"

definition dist2d :: "real \<Rightarrow> real \<Rightarrow> real \<Rightarrow> real \<Rightarrow> real" where
  "dist2d ax az bx bz = hypot (ax - bx) (az - bz)"

definition js_round :: "real \<Rightarrow> real" where
  "js_round x = of_int \<lfloor>x + 1 / 2\<rfloor>"

text \<open>\<open>Math.round(v * 10) / 10\<close>: one decimal place.\<close>

definition round1 :: "real \<Rightarrow> real" where
  "round1 v = js_round (v * 10) / 10"

text \<open>\<open>arr[i]\<close> on a JavaScript array: \<open>undefined\<close> (here \<open>None\<close>) out of range.\<close>

definition js_nth :: "'a list \<Rightarrow> nat \<Rightarrow> 'a option" where
  "js_nth xs i = (if i < length xs then Some (xs ! i) else None)"

section \<open>Step 2: the road graph\<close>

text \<open>
  A node of the dataset, \<open>{ lat, lon }\<close>, in degrees; \<open>nodes\<close> is a \<open>Map\<close> from node ids
  to such records.
\<close>

record latlon =
  lat :: real
  lon :: real

text \<open>
  \<open>Math.atan2(y, x)\<close> and \<open>haversineM\<close>, as exact real functions. In \<open>haversineM\<close> both
  arguments of \<open>atan2\<close> are square roots.
\<close>

definition js_atan2 :: "real \<Rightarrow> real \<Rightarrow> real" where
  "js_atan2 y x =
     (if 0 < x then arctan (y / x)
      else if x < 0 then (if 0 \<le> y then arctan (y / x) + pi else arctan (y / x) - pi)
      else if 0 < y then pi / 2
      else if y < 0 then - (pi / 2)
      else 0)"

definition haversineM :: "real \<Rightarrow> real \<Rightarrow> real \<Rightarrow> real \<Rightarrow> real" where
  "haversineM lat1 lon1 lat2 lon2 =
     (let R = 6371000;
          dLat = ((lat2 - lat1) * pi) / 180;
          dLon = ((lon2 - lon1) * pi) / 180;
          a = (sin (dLat / 2))\<^sup>2
              + cos ((lat1 * pi) / 180) * cos ((lat2 * pi) / 180) * (sin (dLon / 2))\<^sup>2
      in R * 2 * js_atan2 (sqrt a) (sqrt (1 - a)))"

text \<open>
  An entry \<open>{ to, dist, name }\<close> of an adjacency list, and the \<open>Map\<close> \<open>adj\<close> from a node id
  to its list, as the list of its entries in insertion order. \<open>edges_of\<close> is
  \<open>adj.get(u) || []\<close>.
\<close>

record edge =
  e_to :: nat
  e_dist :: real
  e_name :: "string option"

type_synonym adjacency = "(nat \<times> edge list) list"

definition edges_of :: "adjacency \<Rightarrow> nat \<Rightarrow> edge list" where
  "edges_of adj u = (case map_of adj u of None \<Rightarrow> [] | Some es \<Rightarrow> es)"

text \<open>A driveable way: its node ids and its name (\<open>null\<close> when the way has none).\<close>

record way =
  w_nodes :: "nat list"
  w_name :: "string option"

text \<open>\<open>addEdge\<close>: a new key gets an empty list first, then the edge is pushed.\<close>

definition addEdge :: "nat \<Rightarrow> nat \<Rightarrow> real \<Rightarrow> string option \<Rightarrow> adjacency \<Rightarrow> adjacency" where
  "addEdge from to dist' name adj =
     (let adj1 = (if map_of adj from = None then adj @ [(from, [])] else adj)
      in map (\<lambda>(k, es). if k = from then (k, es @ [\<lparr>e_to = to, e_dist = dist', e_name = name\<rparr>])
                           else (k, es)) adj1)"

text \<open>
  The body of the inner loop of \<open>buildGraph\<close> for the consecutive nodes \<open>a\<close>, \<open>b\<close> of a
  way: nothing when one of them has no coordinates, else one edge in each direction.
\<close>

definition link :: "(nat \<rightharpoonup> latlon) \<Rightarrow> string option \<Rightarrow> nat \<times> nat \<Rightarrow> adjacency \<Rightarrow> adjacency" where
  "link nodes name ab adj =
     (case ab of (a, b) \<Rightarrow>
        (case (nodes a, nodes b) of
           (Some na, Some nb) \<Rightarrow>
             let dist' = haversineM (lat na) (lon na) (lat nb) (lon nb)
             in addEdge b a dist' name (addEdge a b dist' name adj)
         | _ \<Rightarrow> adj))"

definition add_way :: "(nat \<rightharpoonup> latlon) \<Rightarrow> way \<Rightarrow> adjacency \<Rightarrow> adjacency" where
  "add_way nodes w adj = fold (link nodes (w_name w)) (zip (w_nodes w) (tl (w_nodes w))) adj"

text \<open>The adjacency map that \<open>buildGraph\<close> returns, from its \<open>nodes\<close> and \<open>ways\<close>.\<close>

definition build_adj :: "(nat \<rightharpoonup> latlon) \<Rightarrow> way list \<Rightarrow> adjacency" where
  "build_adj nodes ways = fold (add_way nodes) ways []"

section \<open>Step 3: the shortest-path search\<close>

text \<open>
  The search adds edge weights, and the sums are IEEE 754 doubles. A double that is not
  negative is the real number it stands for, \<open>Infinity\<close> is \<open>2 ^ 1024\<close>, and the order of
  doubles is the order of these reals. \<open>fl64\<close> rounds a real to the nearest double, ties to
  the even mantissa (53 bits, exponents from -1022, gradual underflow), \<open>rne\<close> rounds to the
  nearest integer, ties to even, and \<open>js_add\<close> is the sum of two doubles: the rounded exact
  sum, which is \<open>Infinity\<close> from \<open>2 ^ 1024\<close> on (\<open>NaN\<close>, the sum of \<open>Infinity\<close> and
  \<open>-Infinity\<close>, is left out: the search adds values that are not negative).
\<close>

definition rne :: "real \<Rightarrow> int" where
  "rne x =
     (let f = \<lfloor>x\<rfloor>; r = x - of_int f
      in if r < 1 / 2 then f else if 1 / 2 < r then f + 1 else if even f then f else f + 1)"

definition expo :: "real \<Rightarrow> int" where
  "expo x = max \<lfloor>log 2 \<bar>x\<bar>\<rfloor> (- 1022)"

definition ulp :: "real \<Rightarrow> real" where
  "ulp x = 2 powr of_int (expo x - 52)"

definition fl64 :: "real \<Rightarrow> real" where
  "fl64 x = (if x = 0 then 0 else of_int (rne (x / ulp x)) * ulp x)"

definition js_Infinity :: real where
  "js_Infinity = 2 ^ 1024"

definition js_add :: "real \<Rightarrow> real \<Rightarrow> real" where
  "js_add a b = max (- js_Infinity) (min js_Infinity (fl64 (a + b)))"

definition nonneg_double :: "real \<Rightarrow> bool" where
  "nonneg_double x = (0 \<le> x \<and> x \<le> js_Infinity \<and> fl64 x = x)"


text \<open>
  The variables of \<open>dijkstra\<close>: the maps \<open>dist\<close> and \<open>prev\<close>, the set \<open>visited\<close> (in
  insertion order) and the array \<open>pq\<close> of entries \<open>{ id, d }\<close>.
\<close>

record dstate =
  d_dist :: "nat \<rightharpoonup> real"
  d_prev :: "nat \<rightharpoonup> nat"
  d_visited :: "nat list"
  d_pq :: "(nat \<times> real) list"

text \<open>The scan for the first entry of least \<open>d\<close>.\<close>

definition min_index :: "(nat \<times> real) list \<Rightarrow> nat" where
  "min_index pq =
     fold (\<lambda>i minIdx. if snd (pq ! i) < snd (pq ! minIdx) then i else minIdx) [1 ..< length pq] 0"

text \<open>The body of the loop over the edges of \<open>u\<close>; \<open>dist.get(v) ?? Infinity\<close>.\<close>

definition relax :: "nat \<Rightarrow> real \<Rightarrow> edge \<Rightarrow> dstate \<Rightarrow> dstate" where
  "relax u du e st =
     (let v = e_to e; w = e_dist e
      in if v \<in> set (d_visited st) then st
         else let newDist = js_add du w
              in if (case d_dist st v of None \<Rightarrow> newDist < js_Infinity | Some dv \<Rightarrow> newDist < dv)
                 then st\<lparr>d_dist := (d_dist st)(v \<mapsto> newDist),
                         d_prev := (d_prev st)(v \<mapsto> u),
                         d_pq := d_pq st @ [(v, newDist)]\<rparr>
                 else st)"

text \<open>
  One iteration of the \<open>while\<close> loop on a non-empty queue; the flag says whether the
  iteration left the loop by \<open>break\<close>.
\<close>

definition dijkstra_iter :: "adjacency \<Rightarrow> nat \<Rightarrow> dstate \<Rightarrow> bool \<times> dstate" where
  "dijkstra_iter adj endId st =
     (let minIdx = min_index (d_pq st);
          u = fst (d_pq st ! minIdx);
          du = snd (d_pq st ! minIdx);
          st1 = st\<lparr>d_pq := take minIdx (d_pq st) @ drop (Suc minIdx) (d_pq st)\<rparr>
      in if u \<in> set (d_visited st1) then (False, st1)
         else let st2 = st1\<lparr>d_visited := d_visited st1 @ [u]\<rparr>
              in if u = endId then (True, st2)
                 else case map_of adj u of
                        None \<Rightarrow> (False, st2)
                      | Some edges \<Rightarrow> (False, fold (relax u du) edges st2))"

text \<open>
  The loop ends: an iteration either only removes a queue entry, or visits a new node
  and adds at most one entry for each of its edges.
\<close>

definition unvisited_degree :: "adjacency \<Rightarrow> nat list \<Rightarrow> nat" where
  "unvisited_degree adj vis = sum_list (map (\<lambda>(k, es). if k \<in> set vis then 0 else length es) adj)"

lemma min_index_fold_less:
  "m < n \<Longrightarrow> k \<le> n \<Longrightarrow>
     fold (\<lambda>i minIdx. if snd (pq ! i) < snd (pq ! minIdx) then i else minIdx) [j ..< k] m < n"
proof (induction k arbitrary: m)
  case 0
  then show ?case by simp
next
  case (Suc k)
  show ?case
  proof (cases "j \<le> k")
    case True
    then have "[j ..< Suc k] = [j ..< k] @ [k]" by simp
    then show ?thesis using Suc by auto
  next
    case False
    then show ?thesis using Suc.prems by simp
  qed
qed

lemma min_index_less: "pq \<noteq> [] \<Longrightarrow> min_index pq < length pq"
  unfolding min_index_def by (rule min_index_fold_less) simp_all

lemma min_index_fold_min:
  fixes pq :: "(nat \<times> real) list"
  assumes "m < j" "j \<le> k" "\<forall>i < j. snd (pq ! m) \<le> snd (pq ! i)"
  shows "\<forall>i < k. snd (pq ! fold (\<lambda>i minIdx. if snd (pq ! i) < snd (pq ! minIdx) then i else minIdx) [j ..< k] m) \<le> snd (pq ! i)"
  using assms
proof (induction k)
  case 0
  then show ?case by simp
next
  case (Suc k)
  let ?f = "\<lambda>i minIdx. if snd (pq ! i) < snd (pq ! minIdx) then i else minIdx"
  show ?case
  proof (cases "j \<le> k")
    case True
    then have eq: "[j ..< Suc k] = [j ..< k] @ [k]" by simp
    have IH: "\<forall>i < k. snd (pq ! fold ?f [j ..< k] m) \<le> snd (pq ! i)"
      using Suc True by simp
    define r where "r = fold ?f [j ..< k] m"
    have r: "fold ?f [j ..< Suc k] m = (if snd (pq ! k) < snd (pq ! r) then k else r)"
      unfolding eq r_def by simp
    show ?thesis
    proof (intro allI impI)
      fix i assume "i < Suc k"
      then consider "i = k" | "i < k" by linarith
      then show "snd (pq ! fold ?f [j ..< Suc k] m) \<le> snd (pq ! i)"
      proof cases
        case 1
        then show ?thesis unfolding r by simp
      next
        case 2
        then have "snd (pq ! r) \<le> snd (pq ! i)" using IH by (simp add: r_def)
        then show ?thesis unfolding r by simp
      qed
    qed
  next
    case False
    with Suc.prems have "j = Suc k" by simp
    then show ?thesis using Suc.prems by simp
  qed
qed

lemma min_index_min:
  assumes "i < length pq"
  shows "snd (pq ! min_index pq) \<le> snd (pq ! i)"
proof -
  have "\<forall>i < length pq. snd (pq ! min_index pq) \<le> snd (pq ! i)"
    unfolding min_index_def using assms
    by (intro min_index_fold_min) (auto simp: less_Suc_eq_le)
  with assms show ?thesis by blast
qed

lemma relax_visited [simp]: "d_visited (relax u du e st) = d_visited st"
  by (simp add: relax_def Let_def)

lemma relax_pq_length: "length (d_pq (relax u du e st)) \<le> Suc (length (d_pq st))"
  by (simp add: relax_def Let_def)

lemma fold_relax_visited [simp]: "d_visited (fold (relax u du) es st) = d_visited st"
  by (induction es arbitrary: st) simp_all

lemma fold_relax_pq_length:
  "length (d_pq (fold (relax u du) es st)) \<le> length (d_pq st) + length es"
proof (induction es arbitrary: st)
  case Nil
  then show ?case by simp
next
  case (Cons e es)
  have "length (d_pq (fold (relax u du) es (relax u du e st)))
          \<le> length (d_pq (relax u du e st)) + length es"
    by (rule Cons.IH)
  also have "\<dots> \<le> Suc (length (d_pq st)) + length es"
    using relax_pq_length[of u du e st] by simp
  finally show ?case by simp
qed

lemma unvisited_degree_mono: "unvisited_degree adj (vis @ [u]) \<le> unvisited_degree adj vis"
  unfolding unvisited_degree_def by (induction adj) (auto simp: add_mono)

lemma unvisited_degree_visit:
  "map_of adj u = Some es \<Longrightarrow> u \<notin> set vis \<Longrightarrow>
     unvisited_degree adj (vis @ [u]) + length es \<le> unvisited_degree adj vis"
proof (induction adj)
  case Nil
  then show ?case by simp
next
  case (Cons a adj)
  obtain k es' where a: "a = (k, es')" by (cases a)
  show ?case
  proof (cases "k = u")
    case True
    with Cons.prems a have "es' = es" by simp
    then show ?thesis
      using True a Cons.prems(2) unvisited_degree_mono[of adj vis u]
      by (simp add: unvisited_degree_def)
  next
    case False
    with Cons a show ?thesis by (simp add: unvisited_degree_def)
  qed
qed

lemma dijkstra_iter_decreases:
  assumes "d_pq st \<noteq> []" and "dijkstra_iter adj endId st = (False, st')"
  shows "length (d_pq st') + unvisited_degree adj (d_visited st')
           < length (d_pq st) + unvisited_degree adj (d_visited st)"
proof -
  let ?m = "min_index (d_pq st)"
  let ?u = "fst (d_pq st ! ?m)"
  let ?du = "snd (d_pq st ! ?m)"
  let ?q = "take ?m (d_pq st) @ drop (Suc ?m) (d_pq st)"
  have m: "?m < length (d_pq st)" using assms(1) by (rule min_index_less)
  then have q: "Suc (length ?q) = length (d_pq st)" by simp
  show ?thesis
  proof (cases "?u \<in> set (d_visited st)")
    case True
    with assms(2) have "st' = st\<lparr>d_pq := ?q\<rparr>" by (simp add: dijkstra_iter_def Let_def)
    then show ?thesis using q by simp
  next
    case False
    note unvisited = this
    show ?thesis
    proof (cases "map_of adj ?u")
      case None
      with assms(2) unvisited have "st' = st\<lparr>d_pq := ?q, d_visited := d_visited st @ [?u]\<rparr>"
        by (auto simp: dijkstra_iter_def Let_def split: if_splits)
      then show ?thesis using q unvisited_degree_mono[of adj "d_visited st" ?u] by simp
    next
      case (Some es)
      with assms(2) unvisited
      have "st' = fold (relax ?u ?du) es (st\<lparr>d_pq := ?q, d_visited := d_visited st @ [?u]\<rparr>)"
        by (auto simp: dijkstra_iter_def Let_def split: if_splits)
      then have "length (d_pq st') \<le> length ?q + length es"
        and "d_visited st' = d_visited st @ [?u]"
        using fold_relax_pq_length[of ?u ?du es "st\<lparr>d_pq := ?q, d_visited := d_visited st @ [?u]\<rparr>"]
        by simp_all
      then show ?thesis
        using q unvisited_degree_visit[OF Some unvisited] by simp
    qed
  qed
qed

function dijkstra_loop :: "adjacency \<Rightarrow> nat \<Rightarrow> dstate \<Rightarrow> dstate" where
  "dijkstra_loop adj endId st =
     (if d_pq st = [] then st
      else case dijkstra_iter adj endId st of
             (True, st') \<Rightarrow> st'
           | (False, st') \<Rightarrow> dijkstra_loop adj endId st')"
  by pat_completeness auto
termination
proof (relation "measure (\<lambda>(adj, endId, st). length (d_pq st) + unvisited_degree adj (d_visited st))",
    goal_cases)
  case 1
  show ?case by simp
next
  case (2 adj endId st x1 x2)
  then show ?case using dijkstra_iter_decreases[of st adj endId x2] by simp
qed

declare dijkstra_loop.simps [simp del]

text \<open>
  The reconstruction loop \<open>while (cur !== undefined)\<close>: it follows \<open>prev\<close> from the end
  node and would not return on a cycle of \<open>prev\<close>.
\<close>

partial_function (option) reconstruct :: "(nat \<rightharpoonup> nat) \<Rightarrow> nat \<Rightarrow> nat list \<Rightarrow> nat list option" where
  "reconstruct prev cur path =
     (case prev cur of None \<Rightarrow> Some (cur # path) | Some p \<Rightarrow> reconstruct prev p (cur # path))"

definition initial_state :: "nat \<Rightarrow> dstate" where
  "initial_state startId =
     \<lparr>d_dist = [startId \<mapsto> 0], d_prev = Map.empty, d_visited = [], d_pq = [(startId, 0)]\<rparr>"

text \<open>
  \<open>dijkstra\<close>: \<open>Some None\<close> is the result \<open>null\<close>, \<open>Some (Some path)\<close> a path, and \<open>None\<close>
  a search that does not return.
\<close>

definition dijkstra :: "adjacency \<Rightarrow> nat \<Rightarrow> nat \<Rightarrow> nat list option option" where
  "dijkstra adj startId endId =
     (let st = dijkstra_loop adj endId (initial_state startId)
      in if d_prev st endId = None \<and> startId \<noteq> endId then Some None
         else map_option Some (reconstruct (d_prev st) endId []))"

section \<open>Step 4: projection to game coordinates\<close>

definition TARGET_SPAN :: real where
  "TARGET_SPAN = 500"

definition BOUNDS_PADDING :: real where
  "BOUNDS_PADDING = 100"

text \<open>An element of \<open>gameStops\<close>: a bus stop of the dataset with its projected position.\<close>

record game_stop =
  gs_lat :: real
  gs_lon :: real
  gs_name :: "string option"
  gamePos :: point

record bus_stop =
  b_lat :: real
  b_lon :: real
  b_name :: "string option"

text \<open>
  The running minimum and maximum of the loops that start from \<open>Infinity\<close> and
  \<open>-Infinity\<close>, for a list that is not empty.
\<close>

definition list_min :: "real list \<Rightarrow> real" where
  "list_min xs = fold min (tl xs) (hd xs)"

definition list_max :: "real list \<Rightarrow> real" where
  "list_max xs = fold max (tl xs) (hd xs)"

definition project :: "real \<Rightarrow> real \<Rightarrow> real \<Rightarrow> real \<Rightarrow> real \<Rightarrow> point" where
  "project lat0 lng0 cosLat la lo = ((lo - lng0) * cosLat * 111320, - (la - lat0) * 111320)"

text \<open>
  \<open>projectToGameCoords\<close>, for a route that is not empty (\<open>main\<close> calls it with at least
  10 points). It returns \<open>gameRoute\<close> and \<open>gameStops\<close>; the scale and the centre, which the
  script also returns, are read by step 8 only. When all route points coincide,
  \<open>maxSpan\<close> is 0, the scale is \<open>Infinity\<close> and every coordinate is \<open>NaN\<close>: the result is
  \<open>None\<close> here.
\<close>

definition projectToGameCoords ::
  "latlon list \<Rightarrow> bus_stop list \<Rightarrow> (point list \<times> game_stop list) option" where
  "projectToGameCoords routeLatLng busStopsLatLng =
     (let lat0 = sum_list (map lat routeLatLng) / real (length routeLatLng);
          lng0 = sum_list (map lon routeLatLng) / real (length routeLatLng);
          cosLat = cos (lat0 * pi / 180);
          rawRoute = map (\<lambda>p. project lat0 lng0 cosLat (lat p) (lon p)) routeLatLng;
          minX = list_min (map fst rawRoute); maxX = list_max (map fst rawRoute);
          minZ = list_min (map snd rawRoute); maxZ = list_max (map snd rawRoute);
          spanX = maxX - minX; spanZ = maxZ - minZ;
          maxSpan = max spanX spanZ
      in if maxSpan = 0 then None
         else
           let scale = TARGET_SPAN / maxSpan;
               cx = (minX + maxX) / 2;
               cz = (minZ + maxZ) / 2;
               gameRoute = map (\<lambda>(x, z). (round1 ((x - cx) * scale), round1 ((z - cz) * scale)))
                             rawRoute;
               gameStops = map (\<lambda>s.
                   let pos = project lat0 lng0 cosLat (b_lat s) (b_lon s)
                   in \<lparr>gs_lat = b_lat s, gs_lon = b_lon s, gs_name = b_name s,
                       gamePos = (round1 ((fst pos - cx) * scale), round1 ((snd pos - cz) * scale))\<rparr>)
                 busStopsLatLng
           in Some (gameRoute, gameStops))"

section \<open>Step 5a: topology cleaning\<close>

text \<open>
  The test of one interior point \<open>b\<close> between \<open>a\<close> and \<open>c\<close> in the cleanup pass of \<open>main\<close>:
  the point is marked when either adjacent segment is shorter than 0.01 or when the
  cosine of the turn is negative.
\<close>

definition seg_dot :: "point \<Rightarrow> point \<Rightarrow> point \<Rightarrow> real" where
  "seg_dot a b c =
     (fst b - fst a) * (fst c - fst b) + (snd b - snd a) * (snd c - snd b)"

definition backtrack_at :: "point \<Rightarrow> point \<Rightarrow> point \<Rightarrow> bool" where
  "backtrack_at a b c =
     (let magAB = hypot (fst b - fst a) (snd b - snd a);
          magBC = hypot (fst c - fst b) (snd c - snd b)
      in if magAB < 1 / 100 \<or> magBC < 1 / 100 then True
         else seg_dot a b c / (magAB * magBC) < 0)"

text \<open>The indices collected in \<open>toRemove\<close> by one pass, in insertion order.\<close>

definition toRemove :: "point list \<Rightarrow> nat list" where
  "toRemove route =
     filter (\<lambda>i. backtrack_at (route ! (i - 1)) (route ! i) (route ! (i + 1)))
       [1 ..< length route - 1]"

text \<open>\<open>xs.filter((_, i) => !toRemove.has(i))\<close>.\<close>

definition drop_indices :: "nat list \<Rightarrow> 'a list \<Rightarrow> 'a list" where
  "drop_indices rem xs =
     map fst (filter (\<lambda>(x, i). i \<notin> set rem) (zip xs [0 ..< length xs]))"

lemma length_drop_indices_le: "length (drop_indices rem xs) \<le> length xs"
proof -
  have "length (drop_indices rem xs) \<le> length (zip xs [0 ..< length xs])"
    unfolding drop_indices_def length_map by (rule length_filter_le)
  then show ?thesis by simp
qed

lemma length_drop_indices_less:
  assumes "i \<in> set rem" and "i < length xs"
  shows "length (drop_indices rem xs) < length xs"
proof -
  let ?zs = "zip xs [0 ..< length xs]"
  have mem: "(xs ! i, i) \<in> set ?zs"
    using assms(2) by (auto simp: set_zip intro!: exI[of _ i])
  have "\<not> (case (xs ! i, i) of (x, j) \<Rightarrow> j \<notin> set rem)"
    using assms(1) by simp
  with mem have "length (filter (\<lambda>(x, j). j \<notin> set rem) ?zs) < length ?zs"
    by (intro length_filter_less) auto
  then show ?thesis by (simp add: drop_indices_def)
qed

lemma toRemove_in_range: "i \<in> set (toRemove route) \<Longrightarrow> 1 \<le> i \<and> i + 1 < length route"
  by (auto simp: toRemove_def)

lemma toRemove_shrinks:
  "toRemove route \<noteq> [] \<Longrightarrow> length (drop_indices (toRemove route) route) < length route"
proof -
  assume "toRemove route \<noteq> []"
  then obtain i where i: "i \<in> set (toRemove route)"
    by (cases "toRemove route") auto
  then have "i < length route" using toRemove_in_range[OF i] by simp
  with i show ?thesis by (rule length_drop_indices_less)
qed

text \<open>
  The \<open>while (cleanPass)\<close> loop: one pass computes \<open>toRemove\<close> from the current route; the
  flag \<open>cleanPass\<close> is set exactly when an index was added, and then the route and the
  labels are filtered and the loop runs again.
\<close>

function clean_loop :: "point list \<times> string list \<Rightarrow> point list \<times> string list" where
  "clean_loop (route, labels) =
     (let rem = toRemove route
      in if rem = [] then (route, labels)
         else clean_loop (drop_indices rem route, drop_indices rem labels))"
  by pat_completeness auto
termination
  by (relation "measure (\<lambda>(route, labels). length route)") (auto simp: toRemove_shrinks)

declare clean_loop.simps [simp del]

text \<open>The number of passes the loop makes (the final pass, which removes nothing, included).\<close>

function clean_passes :: "point list \<Rightarrow> nat" where
  "clean_passes route =
     (let rem = toRemove route
      in if rem = [] then 1 else Suc (clean_passes (drop_indices rem route)))"
  by pat_completeness auto
termination
  by (relation "measure length") (auto simp: toRemove_shrinks)

declare clean_passes.simps [simp del]

text \<open>
  The block after the loop ("Also remove duplicate consecutive points"): a point is kept
  when it is more than 0.5 away from the last point kept; the label of a kept point is
  \<open>cleanLabels[i]\<close>. The route is not empty here (\<open>main\<close> has left when it had fewer than
  10 points, and the loop above keeps both end points).
\<close>

definition dedupe_step ::
  "point list \<Rightarrow> string list \<Rightarrow> nat \<Rightarrow> point list \<times> string option list
     \<Rightarrow> point list \<times> string option list" where
  "dedupe_step route labels i acc =
     (case acc of (deduped, dedupedLabels) \<Rightarrow>
        if hypot (fst (route ! i) - fst (last deduped)) (snd (route ! i) - snd (last deduped))
             > 1 / 2
        then (deduped @ [route ! i], dedupedLabels @ [js_nth labels i])
        else (deduped, dedupedLabels))"

definition dedupe_consecutive ::
  "point list \<times> string list \<Rightarrow> point list \<times> string option list" where
  "dedupe_consecutive rl =
     (case rl of (route, labels) \<Rightarrow>
        fold (dedupe_step route labels) [1 ..< length route] ([route ! 0], [js_nth labels 0]))"

text \<open>Step 5a as a whole: \<open>cleanRoute\<close> and \<open>cleanLabels\<close> as they enter the resampler.\<close>

definition cleanup :: "point list \<Rightarrow> string list \<Rightarrow> point list \<times> string option list" where
  "cleanup gameRoute rawStreetLabels = dedupe_consecutive (clean_loop (gameRoute, rawStreetLabels))"

section \<open>Step 5b: resampling at uniform arc length\<close>

definition SAMPLE_INTERVAL :: real where
  "SAMPLE_INTERVAL = 25"

text \<open>The array \<open>cumLen\<close>: cumulative arc length at each point of the cleaned route.\<close>

definition cumLen_step :: "point list \<Rightarrow> nat \<Rightarrow> real list \<Rightarrow> real list" where
  "cumLen_step route i cumLen =
     cumLen @ [cumLen ! (i - 1)
        + hypot (fst (route ! i) - fst (route ! (i - 1))) (snd (route ! i) - snd (route ! (i - 1)))]"

definition cumLen_of :: "point list \<Rightarrow> real list" where
  "cumLen_of route = fold (cumLen_step route) [1 ..< length route] [0]"

text \<open>
  \<open>while (segIdx < cleanRoute.length - 2 && cumLen[segIdx + 1] < dist) segIdx++\<close>, with \<open>n\<close>
  the length of the route.
\<close>

function advance :: "real list \<Rightarrow> nat \<Rightarrow> real \<Rightarrow> nat \<Rightarrow> nat" where
  "advance cumLen n dist' segIdx =
     (if segIdx + 2 < n \<and> cumLen ! (segIdx + 1) < dist' then advance cumLen n dist' (segIdx + 1)
      else segIdx)"
  by pat_completeness auto
termination
  by (relation "measure (\<lambda>(cumLen, n, dist', segIdx). n - segIdx)") auto

declare advance.simps [simp del]

text \<open>The interpolation parameter \<open>t\<close> and the point pushed for the distance \<open>dist\<close>.\<close>

definition seg_t :: "real list \<Rightarrow> nat \<Rightarrow> real \<Rightarrow> real" where
  "seg_t cumLen segIdx dist' =
     (let segStart = cumLen ! segIdx;
          segEnd = cumLen ! (segIdx + 1);
          segLen = segEnd - segStart
      in if segLen > 0 then (dist' - segStart) / segLen else 0)"

definition interp_point :: "point list \<Rightarrow> real list \<Rightarrow> nat \<Rightarrow> real \<Rightarrow> point" where
  "interp_point route cumLen segIdx dist' =
     (let t = seg_t cumLen segIdx dist'
      in (round1 (fst (route ! segIdx) + t * (fst (route ! (segIdx + 1)) - fst (route ! segIdx))),
          round1 (snd (route ! segIdx) + t * (snd (route ! (segIdx + 1)) - snd (route ! segIdx)))))"

text \<open>
  \<open>for (let dist = SAMPLE_INTERVAL; dist < totalLen; dist += SAMPLE_INTERVAL)\<close>, with the
  state \<open>segIdx\<close> and \<open>finalRoute\<close>.
\<close>

function sample_loop ::
  "point list \<Rightarrow> real list \<Rightarrow> real \<Rightarrow> real \<Rightarrow> nat \<Rightarrow> point list \<Rightarrow> point list" where
  "sample_loop route cumLen totalLen dist' segIdx finalRoute =
     (if dist' < totalLen
      then let seg = advance cumLen (length route) dist' segIdx
           in sample_loop route cumLen totalLen (dist' + SAMPLE_INTERVAL) seg
                (finalRoute @ [interp_point route cumLen seg dist'])
      else finalRoute)"
  by pat_completeness auto
termination
proof (relation "measure (\<lambda>(route, cumLen, totalLen, dist', segIdx, finalRoute).
                    nat \<lceil>(totalLen - dist') / SAMPLE_INTERVAL\<rceil>)", goal_cases)
  case 1
  show ?case by simp
next
  case (2 route cumLen totalLen d segIdx finalRoute seg)
  then have pos: "0 < (totalLen - d) / 25" by simp
  have "(totalLen - (d + 25)) / 25 = (totalLen - d) / 25 - 1"
    by (simp add: field_simps)
  then have "\<lceil>(totalLen - (d + 25)) / 25\<rceil> = \<lceil>(totalLen - d) / 25 - 1\<rceil>"
    by (rule arg_cong)
  then have "\<lceil>(totalLen - (d + 25)) / 25\<rceil> = \<lceil>(totalLen - d) / 25\<rceil> - 1"
    by (simp only: ceiling_diff_one)
  moreover have "0 < \<lceil>(totalLen - d) / 25\<rceil>" using pos by simp
  ultimately show ?case by (simp add: SAMPLE_INTERVAL_def)
qed

declare sample_loop.simps [simp del]

text \<open>
  Step 5b: the samples, and the last point of the cleaned route when the last sample is
  more than 1 away from it.
\<close>

definition sampled :: "point list \<Rightarrow> point list" where
  "sampled cleanRoute =
     (let cumLen = cumLen_of cleanRoute;
          totalLen = cumLen ! (length cumLen - 1)
      in sample_loop cleanRoute cumLen totalLen SAMPLE_INTERVAL 0 [cleanRoute ! 0])"

definition resample :: "point list \<Rightarrow> point list" where
  "resample cleanRoute =
     (let finalRoute = sampled cleanRoute;
          lastFull = cleanRoute ! (length cleanRoute - 1);
          lastSampled = finalRoute ! (length finalRoute - 1)
      in if hypot (fst lastFull - fst lastSampled) (snd lastFull - snd lastSampled) > 1
         then finalRoute @ [lastFull]
         else finalRoute)"

text \<open>Whether the original last point is pushed after the samples.\<close>

definition last_appended :: "point list \<Rightarrow> bool" where
  "last_appended cleanRoute =
     (let finalRoute = sampled cleanRoute;
          lastFull = cleanRoute ! (length cleanRoute - 1);
          lastSampled = finalRoute ! (length finalRoute - 1)
      in hypot (fst lastFull - fst lastSampled) (snd lastFull - snd lastSampled) > 1)"

text \<open>
  For the maximum-gap property: the distance of two points; the exact point of the
  polyline at arc length \<open>s\<close> on segment \<open>k\<close>, before rounding; a point that differs from
  another by at most 0.05 in each coordinate, as a coordinate rounded to one decimal
  differs from its exact value; and two points that are within rounding of two points
  at most \<open>SAMPLE_INTERVAL\<close> apart.
\<close>

definition pdist :: "point \<Rightarrow> point \<Rightarrow> real" where
  "pdist p q = hypot (fst p - fst q) (snd p - snd q)"

definition exact_point :: "point list \<Rightarrow> nat \<Rightarrow> real \<Rightarrow> point" where
  "exact_point route k s =
     (let t = seg_t (cumLen_of route) k s
      in (fst (route ! k) + t * (fst (route ! (k + 1)) - fst (route ! k)),
          snd (route ! k) + t * (snd (route ! (k + 1)) - snd (route ! k))))"

definition onseg :: "point list \<Rightarrow> nat \<Rightarrow> real \<Rightarrow> bool" where
  "onseg route k s =
     (Suc k < length route \<and> cumLen_of route ! k \<le> s \<and> s \<le> cumLen_of route ! Suc k)"

definition within_rounding :: "point \<Rightarrow> point \<Rightarrow> bool" where
  "within_rounding p e = (\<bar>fst p - fst e\<bar> \<le> 1 / 20 \<and> \<bar>snd p - snd e\<bar> \<le> 1 / 20)"

definition gap_ok :: "point \<Rightarrow> point \<Rightarrow> bool" where
  "gap_ok p q =
     (\<exists>p' q'. within_rounding p p' \<and> within_rounding q q'
        \<and> dist2d (fst p') (snd p') (fst q') (snd q') \<le> SAMPLE_INTERVAL)"

section \<open>Step 7: matching bus stops to the route\<close>

definition MIN_STOP_SPACING :: real where
  "MIN_STOP_SPACING = 40"

definition STOP_MATCH_RADIUS :: real where
  "STOP_MATCH_RADIUS = 30"

text \<open>
  An element of \<open>gameStops\<close> (a bus stop of the dataset with its projected position) and a
  candidate of \<open>matchBusStops\<close>. A name is a string or \<open>null\<close> (\<open>None\<close>); JavaScript
  treats \<open>null\<close> and the empty string as false.
\<close>

record candidate =
  c_idx :: nat
  c_dist :: real
  c_name :: "string option"
  c_lat :: real
  c_lon :: real

definition truthy :: "string option \<Rightarrow> bool" where
  "truthy n = (n \<noteq> None \<and> n \<noteq> Some [])"

text \<open>
  The scan for the nearest route point: \<open>best\<close> is \<open>(bestIdx, bestDist)\<close>, and \<open>None\<close>
  stands for the initial \<open>(-1, Infinity)\<close>, which every distance beats.
\<close>

fun nearest_scan :: "point \<Rightarrow> point list \<Rightarrow> nat \<Rightarrow> (nat \<times> real) option \<Rightarrow> (nat \<times> real) option" where
  "nearest_scan pos [] i best = best"
| "nearest_scan pos (p # ps) i best =
     (let d = dist2d (fst pos) (snd pos) (fst p) (snd p)
      in nearest_scan pos ps (Suc i)
           (case best of
              None \<Rightarrow> Some (i, d)
            | Some (bestIdx, bestDist) \<Rightarrow> if d < bestDist then Some (i, d) else best))"

definition match_candidates :: "point list \<Rightarrow> game_stop list \<Rightarrow> real \<Rightarrow> candidate list" where
  "match_candidates route gameStops matchRadius =
     concat (map (\<lambda>stop.
        case nearest_scan (gamePos stop) route 0 None of
          None \<Rightarrow> []
        | Some (bestIdx, bestDist) \<Rightarrow>
            if bestDist \<le> matchRadius
            then [\<lparr>c_idx = bestIdx, c_dist = bestDist, c_name = gs_name stop,
                   c_lat = gs_lat stop, c_lon = gs_lon stop\<rparr>]
            else []) gameStops)"

text \<open>
  One round of the deduplication loop for the candidate \<open>c\<close>: \<open>nearby\<close> is the first entry
  of \<open>deduped\<close> whose index is less than 3 away; it is replaced in place by \<open>c\<close> when it has
  no name and \<open>c\<close> has one, or when both have names and \<open>c\<close> is strictly closer; with no
  such entry \<open>c\<close> is pushed.
\<close>

fun dedup_insert :: "candidate \<Rightarrow> candidate list \<Rightarrow> candidate list" where
  "dedup_insert c [] = [c]"
| "dedup_insert c (d # ds) =
     (if \<bar>int (c_idx d) - int (c_idx c)\<bar> < 3
      then (if \<not> truthy (c_name d) \<and> truthy (c_name c) then c # ds
            else if truthy (c_name d) \<and> truthy (c_name c) \<and> c_dist c < c_dist d then c # ds
            else d # ds)
      else d # dedup_insert c ds)"

definition dedupe_candidates :: "candidate list \<Rightarrow> candidate list" where
  "dedupe_candidates candidates = foldl (\<lambda>deduped c. dedup_insert c deduped) [] candidates"

text \<open>
  The minimum-spacing loop, after its first element: \<open>l\<close> is the last element selected so
  far; \<open>ix\<close> reads the route index of an element.
\<close>

fun space_after :: "point list \<Rightarrow> ('a \<Rightarrow> nat) \<Rightarrow> 'a \<Rightarrow> 'a list \<Rightarrow> 'a list" where
  "space_after route ix l [] = []"
| "space_after route ix l (c # cs) =
     (if dist2d (fst (route ! ix c)) (snd (route ! ix c)) (fst (route ! ix l)) (snd (route ! ix l))
           \<ge> MIN_STOP_SPACING
      then c # space_after route ix c cs
      else space_after route ix l cs)"

definition select_spaced :: "point list \<Rightarrow> candidate list \<Rightarrow> candidate list" where
  "select_spaced route deduped =
     (case deduped of [] \<Rightarrow> [] | c # cs \<Rightarrow> c # space_after route c_idx c cs)"

text \<open>\<open>matchBusStops\<close>; the sort of JavaScript arrays is stable, as \<open>sort_key\<close> is.\<close>

definition matchBusStops :: "point list \<Rightarrow> game_stop list \<Rightarrow> real \<Rightarrow> candidate list" where
  "matchBusStops route gameStops matchRadius =
     take 10 (select_spaced route
       (dedupe_candidates (sort_key c_idx (match_candidates route gameStops matchRadius))))"

text \<open>
  After \<open>matchBusStops\<close>, \<open>main\<close> reads only \<open>idx\<close> and \<open>name\<close> of a stop object. A stop
  before naming is a pair of its index and its name (a string or \<open>null\<close>); after
  \<open>assignStreetNames\<close> every name is a string.
\<close>

record stop =
  s_idx :: nat
  s_name :: string

definition starts_with_Stop :: "string \<Rightarrow> bool" where
  "starts_with_Stop n = (take 5 n = ''Stop '')"

text \<open>\<open>streetLabels[Math.min(stop.idx, streetLabels.length - 1)] || 'Unknown'\<close>.\<close>

definition label_for :: "string list \<Rightarrow> nat \<Rightarrow> string" where
  "label_for streetLabels i =
     (case js_nth streetLabels (min i (length streetLabels - 1)) of
        None \<Rightarrow> ''Unknown''
      | Some l \<Rightarrow> if l = [] then ''Unknown'' else l)"

definition assignStreetNames :: "(nat \<times> string option) list \<Rightarrow> string list \<Rightarrow> stop list" where
  "assignStreetNames stops streetLabels =
     map (\<lambda>(i, n).
        case n of
          Some nm \<Rightarrow>
            if nm \<noteq> [] \<and> \<not> starts_with_Stop nm then \<lparr>s_idx = i, s_name = nm\<rparr>
            else \<lparr>s_idx = i, s_name = label_for streetLabels i\<rparr>
        | None \<Rightarrow> \<lparr>s_idx = i, s_name = label_for streetLabels i\<rparr>) stops"

text \<open>Decimal digits of a natural number, for \<open>`Stop ${i}`\<close> and for the emitted file.\<close>

fun show_nat :: "nat \<Rightarrow> string" where
  "show_nat n =
     (if n < 10 then [''0123456789'' ! n]
      else show_nat (n div 10) @ [''0123456789'' ! (n mod 10)])"

declare show_nat.simps [simp del]

text \<open>
  The loop \<open>for (let i = 0; i < routeLen - 1; i += interval)\<close> for a positive \<open>interval\<close>.
  With \<open>interval = 0\<close> and \<open>routeLen > 1\<close> the loop of the script never ends (it pushes
  until memory is exhausted); \<open>synthesize\<close> below returns \<open>Never\<close> there.
\<close>

function synth_loop :: "nat \<Rightarrow> nat \<Rightarrow> nat \<Rightarrow> nat list" where
  "synth_loop routeLen interval i =
     (if 0 < interval \<and> i + 1 < routeLen then i # synth_loop routeLen interval (i + interval)
      else [])"
  by pat_completeness auto
termination
  by (relation "measure (\<lambda>(routeLen, interval, i). routeLen - i)") auto

declare synth_loop.simps [simp del]

text \<open>
  How a stage of \<open>main\<close> ends: with a value, with a \<open>TypeError\<close> (which \<open>main().catch\<close>
  turns into exit code 1), or never.
\<close>

datatype 'a result = Ok 'a | TypeError | Never

definition synthesize :: "nat \<Rightarrow> (nat \<times> string option) list result" where
  "synthesize routeLen =
     (let interval = routeLen div 8
      in if interval = 0 \<and> 1 < routeLen then Never
         else Ok (map (\<lambda>i. (i, Some (''Stop '' @ show_nat i))) (synth_loop routeLen interval 0)))"

text \<open>
  The merge of the synthetic stops into \<open>matchedStops\<close>, skipping indices already in
  \<open>allIndices\<close>.
\<close>

definition merge_step :: "stop \<Rightarrow> stop list \<times> nat set \<Rightarrow> stop list \<times> nat set" where
  "merge_step s acc =
     (case acc of (matchedStops, allIndices) \<Rightarrow>
        if s_idx s \<in> allIndices then (matchedStops, allIndices)
        else (matchedStops @ [s], insert (s_idx s) allIndices))"

definition merge_synthetic :: "stop list \<Rightarrow> stop list \<Rightarrow> stop list" where
  "merge_synthetic matchedStops synthetic =
     fst (fold merge_step synthetic (matchedStops, set (map s_idx matchedStops)))"

text \<open>
  Step 7 of \<open>main\<close> up to \<open>deduplicateStopNames\<close>: the stops matched, named, and, when
  fewer than 6 matched, merged with synthetic ones, sorted, spaced and cut to 10. With
  nothing to merge, \<open>spaced\<close> is \<open>[undefined]\<close> and \<open>deduplicateStopNames\<close> throws.
\<close>

definition stops_stage :: "point list \<Rightarrow> game_stop list \<Rightarrow> string list \<Rightarrow> stop list result" where
  "stops_stage finalRoute gameStops simplifiedStreetLabels =
     (let matched = matchBusStops finalRoute gameStops STOP_MATCH_RADIUS;
          matchedStops = assignStreetNames (map (\<lambda>c. (c_idx c, c_name c)) matched)
                           simplifiedStreetLabels
      in if length matchedStops < 6
         then (case synthesize (length finalRoute) of
                 Never \<Rightarrow> Never
               | TypeError \<Rightarrow> TypeError
               | Ok syn \<Rightarrow>
                   let synthetic = assignStreetNames syn simplifiedStreetLabels;
                       merged = sort_key s_idx (merge_synthetic matchedStops synthetic)
                   in (case merged of
                         [] \<Rightarrow> TypeError
                       | m # ms \<Rightarrow> Ok (take 10 (m # space_after finalRoute s_idx m ms))))
         else Ok matchedStops)"

text \<open>\<open>deduplicateStopNames\<close>: the second and later uses of a name get a suffix.\<close>

fun deduplicateStopNames :: "(string \<rightharpoonup> nat) \<Rightarrow> stop list \<Rightarrow> stop list" where
  "deduplicateStopNames seen [] = []"
| "deduplicateStopNames seen (s # ss) =
     (let count = (case seen (s_name s) of None \<Rightarrow> 0 | Some k \<Rightarrow> k) + 1;
          seen' = seen(s_name s \<mapsto> count)
      in (if count > 1
          then s\<lparr>s_name := s_name s @ '' ''
                  @ [''North'', ''South'', ''East'', ''West'', ''Central''] ! ((count - 2) mod 5)\<rparr>
          else s) # deduplicateStopNames seen' ss)"

section \<open>Steps 5b to 6: street labels and loop closure\<close>

text \<open>
  \<open>simplifiedStreetLabels\<close>: the label of the cleaned point nearest to each resampled
  point (\<open>bestIdx\<close> starts at 0), or \<open>'Unknown'\<close>; after \<open>closeLoop\<close> the first label is
  pushed once more.
\<close>

definition nearest_label :: "point list \<Rightarrow> string option list \<Rightarrow> point \<Rightarrow> string" where
  "nearest_label cleanRoute cleanLabels p =
     (let bestIdx = (case nearest_scan p cleanRoute 0 None of None \<Rightarrow> 0 | Some (i, d) \<Rightarrow> i)
      in case js_nth cleanLabels bestIdx of
           Some (Some l) \<Rightarrow> if l = [] then ''Unknown'' else l
         | _ \<Rightarrow> ''Unknown'')"

definition simplifiedStreetLabels :: "point list \<Rightarrow> string option list \<Rightarrow> point list \<Rightarrow> string list" where
  "simplifiedStreetLabels cleanRoute cleanLabels finalRoute =
     (let ls = map (nearest_label cleanRoute cleanLabels) finalRoute in ls @ [ls ! 0])"

definition closeLoop :: "point list \<Rightarrow> point list" where
  "closeLoop route =
     (let first = route ! 0;
          last = route ! (length route - 1);
          gap = hypot (fst first - fst last) (snd first - snd last)
      in if gap > 5 then route @ [first] else route)"

section \<open>Step 9: the emitted file\<close>

record junction =
  j_x :: real
  j_z :: real
  j_radius :: real
  j_name :: string
  j_arms :: nat

record side_road =
  sr_x :: real
  sr_z :: real
  sr_angle :: real
  sr_length :: real

text \<open>
  Number to string, for the numbers the script puts into the file: each is a multiple of
  0.001 (coordinates and radii are rounded to one decimal, angles to three, bounds and
  lengths are integers) and prints as its decimal expansion without trailing zeros.
\<close>

definition frac_digits :: "nat \<Rightarrow> string" where
  "frac_digits f =
     (if f = 0 then []
      else if f mod 100 = 0 then ''.'' @ show_nat (f div 100)
      else if f mod 10 = 0
        then ''.'' @ [''0123456789'' ! (f div 100)] @ [''0123456789'' ! (f div 10 mod 10)]
      else ''.'' @ [''0123456789'' ! (f div 100)] @ [''0123456789'' ! (f div 10 mod 10)]
             @ [''0123456789'' ! (f mod 10)])"

definition js_num :: "real \<Rightarrow> string" where
  "js_num x =
     (let m = nat \<lfloor>\<bar>x\<bar> * 1000 + 1 / 2\<rfloor>
      in (if x < 0 \<and> m \<noteq> 0 then ''-'' else []) @ show_nat (m div 1000) @ frac_digits (m mod 1000))"

text \<open>\<open>lines.join(sep)\<close> and \<open>name.replace(/'/g, "\\'")\<close>.\<close>

fun join :: "string \<Rightarrow> string list \<Rightarrow> string" where
  "join sep [] = []"
| "join sep [x] = x"
| "join sep (x # y # ys) = x @ sep @ join sep (y # ys)"

definition escape_quotes :: "string \<Rightarrow> string" where
  "escape_quotes n = concat (map (\<lambda>ch. if ch = CHR 0x27 then [CHR 0x5C, CHR 0x27] else [ch]) n)"

text \<open>The route in chunks of 5 points, one line per chunk.\<close>

function chunks5 :: "'a list \<Rightarrow> 'a list list" where
  "chunks5 xs = (if xs = [] then [] else take 5 xs # chunks5 (drop 5 xs))"
  by pat_completeness auto
termination
  by (relation "measure length") auto

declare chunks5.simps [simp del]

definition route_line :: "point list \<Rightarrow> string" where
  "route_line chunk =
     ''  '' @ join '', '' (map (\<lambda>(x, z). ''['' @ js_num x @ '', '' @ js_num z @ '']'') chunk) @ '',''"

definition stop_line :: "stop \<Rightarrow> string" where
  "stop_line s =
     ''  { i: '' @ show_nat (s_idx s) @ '', n: '' @ [CHR 0x27] @ escape_quotes (s_name s)
       @ [CHR 0x27] @ '' },''"

definition junction_line :: "junction \<Rightarrow> string" where
  "junction_line j =
     ''  { x: '' @ js_num (j_x j) @ '', z: '' @ js_num (j_z j) @ '', radius: '' @ js_num (j_radius j)
       @ '', name: '' @ [CHR 0x27] @ escape_quotes (j_name j) @ [CHR 0x27]
       @ '', arms: '' @ show_nat (j_arms j) @ '' },''"

definition stub_line :: "side_road \<Rightarrow> string" where
  "stub_line s =
     ''  { x: '' @ js_num (sr_x s) @ '', z: '' @ js_num (sr_z s) @ '', angle: '' @ js_num (sr_angle s)
       @ '', length: '' @ js_num (sr_length s) @ '' },''"

definition nl :: string where
  "nl = [CHR 0x0A]"

text \<open>The constant text of the file after the arrays: the function \<open>newPax\<close>.\<close>

definition newPax_text :: string where
  "newPax_text =
     ''export function newPax() {'' @ nl
     @ ''  var p = [];'' @ nl
     @ ''  for (var i = 0; i < STOPS.length - 1; i++) {'' @ nl
     @ ''    var c = 1 + Math.floor(Math.random() * 3);'' @ nl
     @ ''    for (var j = 0; j < c; j++) {'' @ nl
     @ ''      var d = i + 1 + Math.floor(Math.random() * (STOPS.length - i - 1));'' @ nl
     @ ''      p.push({ origin: i, dest: Math.min(d, STOPS.length - 1), on: false, done: false });'' @ nl
     @ ''    }'' @ nl
     @ ''  }'' @ nl
     @ ''  return p;'' @ nl
     @ ''}'' @ nl"

text \<open>
  The text that \<open>writeRouteData\<close> writes to \<open>routeData.js\<close>; \<open>now\<close> is the value of
  \<open>new Date().toISOString()\<close> when it runs. The dash of the first line is the UTF-8
  encoding of U+2014.
\<close>

definition writeRouteData ::
  "string \<Rightarrow> point list \<Rightarrow> stop list \<Rightarrow> junction list \<Rightarrow> side_road list \<Rightarrow> string" where
  "writeRouteData now route stops junctions sideRoads =
     (let minX = list_min (map fst route); maxX = list_max (map fst route);
          minZ = list_min (map snd route); maxZ = list_max (map snd route);
          bMinX = of_int \<lfloor>minX - BOUNDS_PADDING\<rfloor>; bMaxX = of_int \<lceil>maxX + BOUNDS_PADDING\<rceil>;
          bMinZ = of_int \<lfloor>minZ - BOUNDS_PADDING\<rfloor>; bMaxZ = of_int \<lceil>maxZ + BOUNDS_PADDING\<rceil>;
          routeLines = map route_line (chunks5 route);
          stopLines = map stop_line stops;
          junctionLines = map junction_line junctions;
          stubLines = map stub_line sideRoads
      in ''// Auto-generated by scripts/generate-route.mjs '' @ [CHR 0xE2, CHR 0x80, CHR 0x94]
           @ '' do not edit manually'' @ nl
         @ ''// Source: OpenStreetMap Overpass API (Westminster Loop, Central London)'' @ nl
         @ ''// Generated: '' @ now @ nl
         @ nl
         @ ''export const ROUTE = ['' @ nl
         @ join nl routeLines @ nl
         @ ''];'' @ nl
         @ nl
         @ ''export const STOPS = ['' @ nl
         @ join nl stopLines @ nl
         @ ''];'' @ nl
         @ nl
         @ ''export const BOUNDS = {'' @ nl
         @ ''  minX: '' @ js_num bMinX @ '','' @ nl
         @ ''  maxX: '' @ js_num bMaxX @ '','' @ nl
         @ ''  minZ: '' @ js_num bMinZ @ '','' @ nl
         @ ''  maxZ: '' @ js_num bMaxZ @ '','' @ nl
         @ ''};'' @ nl
         @ nl
         @ ''export const JUNCTIONS = ['' @ nl
         @ join nl junctionLines @ nl
         @ ''];'' @ nl
         @ nl
         @ ''export const SIDE_ROADS = ['' @ nl
         @ join nl stubLines @ nl
         @ ''];'' @ nl
         @ nl
         @ newPax_text)"

section \<open>The run of \<open>main\<close> from the stitched route on\<close>

text \<open>
  How a run ends: with an exit code and no file written (\<open>process.exit(1)\<close>, directly
  or through \<open>main().catch\<close>), never, or with \<open>routeData.js\<close> written with the given text
  (and exit code 0).
\<close>

datatype outcome = Exit nat | Hang | Written string

text \<open>
  Steps 5a to 6 of \<open>main\<close>: the final route and its street labels.
\<close>

definition route_stage :: "point list \<Rightarrow> string list \<Rightarrow> point list \<times> string list" where
  "route_stage gameRoute rawStreetLabels =
     (case cleanup gameRoute rawStreetLabels of (cleanRoute, cleanLabels) \<Rightarrow>
        let sampledRoute = resample cleanRoute
        in (closeLoop sampledRoute, simplifiedStreetLabels cleanRoute cleanLabels sampledRoute))"

text \<open>
  \<open>main\<close> after step 3, from the result of \<open>buildRoute\<close> (\<open>routeLatLng\<close> and
  \<open>rawStreetLabels\<close>) and the bus stops of the dataset. Step 8 (\<open>detectJunctionsAndStubs\<close>)
  reads the graph and the projection, cannot fail and feeds only the file: its result
  (\<open>junctions\<close>, \<open>sideRoads\<close>) is taken as given. \<open>now\<close> is the clock when the file is
  written. With \<open>NaN\<close> coordinates (see \<open>projectToGameCoords\<close>) every comparison is
  false, one route point and no stop are left, and \<open>deduplicateStopNames\<close> throws.
\<close>

definition main ::
  "string \<Rightarrow> latlon list \<Rightarrow> string list \<Rightarrow> bus_stop list \<Rightarrow> junction list \<Rightarrow> side_road list
     \<Rightarrow> outcome" where
  "main now routeLatLng rawStreetLabels busStops junctions sideRoads =
     (if length routeLatLng < 10 then Exit 1
      else case projectToGameCoords routeLatLng busStops of
             None \<Rightarrow> Exit 1
           | Some (gameRoute, gameStops) \<Rightarrow>
               (case route_stage gameRoute rawStreetLabels of (finalRoute, labels) \<Rightarrow>
                  (case stops_stage finalRoute gameStops labels of
                     TypeError \<Rightarrow> Exit 1
                   | Never \<Rightarrow> Hang
                   | Ok matchedStops \<Rightarrow>
                       Written (writeRouteData now finalRoute
                                  (deduplicateStopNames Map.empty matchedStops) junctions sideRoads))))"

text \<open>
  The two properties of a stop list, on its route indices: strictly increasing, and
  every stop at least \<open>MIN_STOP_SPACING\<close> from the one before it.
\<close>

definition spaced :: "point list \<Rightarrow> nat \<Rightarrow> nat \<Rightarrow> bool" where
  "spaced route i j =
     (MIN_STOP_SPACING
        \<le> dist2d (fst (route ! j)) (snd (route ! j)) (fst (route ! i)) (snd (route ! i)))"

definition stops_ok :: "point list \<Rightarrow> nat list \<Rightarrow> bool" where
  "stops_ok route ixs = (sorted_wrt (<) ixs \<and> successively (spaced route) ixs)"

definition gap3 :: "candidate \<Rightarrow> candidate \<Rightarrow> bool" where
  "gap3 a b = (c_idx a + 3 \<le> c_idx b)"

text \<open>
  The deduplication rule in words: an entry \<open>d\<close> already kept is within the window of the
  candidate \<open>c\<close>; the candidate \<open>c\<close> replaces the kept entry \<open>d\<close>.
\<close>

definition in_window :: "candidate \<Rightarrow> candidate \<Rightarrow> bool" where
  "in_window d c = (\<bar>int (c_idx d) - int (c_idx c)\<bar> < 3)"

definition replaces :: "candidate \<Rightarrow> candidate \<Rightarrow> bool" where
  "replaces c d =
     ((\<not> truthy (c_name d) \<and> truthy (c_name c))
      \<or> (truthy (c_name d) \<and> truthy (c_name c) \<and> c_dist c < c_dist d))"

subsection \<open>Facts for evaluating the geometric tests\<close>

lemma hypot_nonneg: "0 \<le> hypot a b"
  by (simp add: hypot_def)

lemma hypot_less_iff: "0 < c \<Longrightarrow> hypot a b < c \<longleftrightarrow> a * a + b * b < c * c"
proof -
  assume c: "0 < c"
  have "hypot a b < c \<longleftrightarrow> sqrt (a * a + b * b) < sqrt (c * c)"
    using c by (simp add: hypot_def)
  also have "\<dots> \<longleftrightarrow> a * a + b * b < c * c"
    by (rule real_sqrt_less_iff)
  finally show ?thesis .
qed

lemma hypot_greater_iff: "0 \<le> c \<Longrightarrow> c < hypot a b \<longleftrightarrow> c * c < a * a + b * b"
proof -
  assume c: "0 \<le> c"
  have "c < hypot a b \<longleftrightarrow> sqrt (c * c) < sqrt (a * a + b * b)"
    using c by (simp add: hypot_def)
  also have "\<dots> \<longleftrightarrow> c * c < a * a + b * b"
    by (rule real_sqrt_less_iff)
  finally show ?thesis .
qed

lemma hypot_ge_iff: "0 \<le> c \<Longrightarrow> c \<le> hypot a b \<longleftrightarrow> c * c \<le> a * a + b * b"
proof -
  assume c: "0 \<le> c"
  have "c \<le> hypot a b \<longleftrightarrow> sqrt (c * c) \<le> sqrt (a * a + b * b)"
    using c by (simp add: hypot_def)
  also have "\<dots> \<longleftrightarrow> c * c \<le> a * a + b * b"
    by (rule real_sqrt_le_iff)
  finally show ?thesis .
qed

lemma hypot_le_iff: "0 \<le> c \<Longrightarrow> hypot a b \<le> c \<longleftrightarrow> a * a + b * b \<le> c * c"
proof -
  assume c: "0 \<le> c"
  have "hypot a b \<le> c \<longleftrightarrow> sqrt (a * a + b * b) \<le> sqrt (c * c)"
    using c by (simp add: hypot_def)
  also have "\<dots> \<longleftrightarrow> a * a + b * b \<le> c * c"
    by (rule real_sqrt_le_iff)
  finally show ?thesis .
qed

lemma hypot_mult_self: "hypot a b * hypot a b = a * a + b * b"
proof -
  have "0 \<le> a * a + b * b" by simp
  then show ?thesis by (simp add: hypot_def)
qed

lemma hypot_axis_x: "hypot a 0 = \<bar>a\<bar>"
  by (simp add: hypot_def)

lemma hypot_axis_z: "hypot 0 b = \<bar>b\<bar>"
  by (simp add: hypot_def)

text \<open>
  The pass marks a point exactly when an adjacent segment is shorter than 0.01 or the
  dot product of the two segments is negative.
\<close>

lemma backtrack_at_iff:
  "backtrack_at a b c \<longleftrightarrow>
     hypot (fst b - fst a) (snd b - snd a) < 1 / 100
     \<or> hypot (fst c - fst b) (snd c - snd b) < 1 / 100
     \<or> seg_dot a b c < 0"
proof -
  let ?m = "hypot (fst b - fst a) (snd b - snd a)"
  let ?n = "hypot (fst c - fst b) (snd c - snd b)"
  show ?thesis
  proof (cases "?m < 1 / 100 \<or> ?n < 1 / 100")
    case True
    then show ?thesis by (auto simp: backtrack_at_def Let_def)
  next
    case False
    then have "0 < ?m * ?n" by (intro mult_pos_pos) auto
    then have "seg_dot a b c / (?m * ?n) < 0 \<longleftrightarrow> seg_dot a b c < 0"
      by (simp add: divide_less_0_iff not_less [symmetric] less_imp_le)
    with False show ?thesis by (simp add: backtrack_at_def Let_def)
  qed
qed

lemma hypot_less_hundredth: "hypot a b < 1 / 100 \<longleftrightarrow> a * a + b * b < 1 / 10000"
  using hypot_less_iff[of "1 / 100" a b] by simp

lemma hypot_greater_half: "1 / 2 < hypot a b \<longleftrightarrow> 1 / 4 < a * a + b * b"
  using hypot_greater_iff[of "1 / 2" a b] by simp

text \<open>The same test and the test of the collapse step, without square roots.\<close>

lemma backtrack_at_sq:
  "backtrack_at a b c \<longleftrightarrow>
     (fst b - fst a) * (fst b - fst a) + (snd b - snd a) * (snd b - snd a) < 1 / 10000
     \<or> (fst c - fst b) * (fst c - fst b) + (snd c - snd b) * (snd c - snd b) < 1 / 10000
     \<or> seg_dot a b c < 0"
  unfolding backtrack_at_iff hypot_less_hundredth ..

lemma dedupe_step_sq:
  "dedupe_step route labels i (deduped, dedupedLabels) =
     (if 1 / 4 < (fst (route ! i) - fst (last deduped)) * (fst (route ! i) - fst (last deduped))
                + (snd (route ! i) - snd (last deduped)) * (snd (route ! i) - snd (last deduped))
      then (deduped @ [route ! i], dedupedLabels @ [js_nth labels i])
      else (deduped, dedupedLabels))"
  unfolding dedupe_step_def hypot_greater_half by simp

lemma clean_passes_le: "clean_passes route \<le> Suc (length route)"
proof (induction route rule: clean_passes.induct)
  case (1 route)
  show ?case
  proof (cases "toRemove route = []")
    case True
    then show ?thesis by (simp add: clean_passes.simps[of route])
  next
    case False
    from "1.IH"[OF refl False]
    have "clean_passes (drop_indices (toRemove route) route)
            \<le> Suc (length (drop_indices (toRemove route) route))" .
    moreover have "length (drop_indices (toRemove route) route) < length route"
      using False by (rule toRemove_shrinks)
    ultimately show ?thesis using False by (simp add: clean_passes.simps[of route] Let_def)
  qed
qed

text \<open>
  C9. The backtrack-removal loop terminates on every polyline: a pass either removes at
  least one point, so that the next pass runs on a strictly shorter route, or removes
  nothing and is the last pass; the loop makes at most \<open>length route + 1\<close> passes.
\<close>

theorem clean_loop_terminates:
  "((toRemove route = [] \<and> clean_loop (route, labels) = (route, labels)
      \<and> clean_passes route = 1)
   \<or> (toRemove route \<noteq> []
      \<and> length (drop_indices (toRemove route) route) < length route
      \<and> clean_loop (route, labels) =
          clean_loop (drop_indices (toRemove route) route, drop_indices (toRemove route) labels)
      \<and> clean_passes route = Suc (clean_passes (drop_indices (toRemove route) route))))
   \<and> clean_passes route \<le> Suc (length route)"
proof (cases "toRemove route = []")
  case True
  then show ?thesis
    using clean_passes_le[of route]
    by (simp add: clean_loop.simps[of route] clean_passes.simps[of route] Let_def)
next
  case False
  then show ?thesis
    using clean_passes_le[of route] toRemove_shrinks[OF False]
    by (simp add: clean_loop.simps[of route] clean_passes.simps[of route] Let_def)
qed

theorem clean_loop_terminates_witness:
  "toRemove [(0, 0), (10, 0), (5, 0), (20, 0)] = [1, 2]
   \<and> length (drop_indices [1, 2] [(0::real, 0::real), (10, 0), (5, 0), (20, 0)]) < 4
   \<and> clean_loop ([(0, 0), (10, 0), (5, 0), (20, 0)], [''a'', ''b'', ''c'', ''d'']) =
       clean_loop ([(0, 0), (20, 0)], [''a'', ''d''])
   \<and> clean_passes [(0, 0), (10, 0), (5, 0), (20, 0)] \<le> 5"
proof -
  have r: "toRemove [(0, 0), (10, 0), (5, 0), (20, 0)] = [1, 2]"
    by (simp add: toRemove_def backtrack_at_sq seg_dot_def upt_conv_Cons)
  have d: "drop_indices [1, 2] [(0::real, 0::real), (10, 0), (5, 0), (20, 0)] = [(0, 0), (20, 0)]"
    by (simp add: drop_indices_def upt_conv_Cons)
  have l: "drop_indices [1, 2] [''a'', ''b'', ''c'', ''d''] = [''a'', ''d'']"
    by (simp add: drop_indices_def upt_conv_Cons)
  from clean_loop_terminates[of "[(0, 0), (10, 0), (5, 0), (20, 0)]" "[''a'', ''b'', ''c'', ''d'']"]
  show ?thesis
    unfolding r d l by simp
qed

section \<open>Stop matching: order, spacing, deduplication\<close>

lemma dedup_insert_subset: "set (dedup_insert c ds) \<subseteq> insert c (set ds)"
  by (induction ds) auto

lemma dedup_insert_gap3:
  assumes "sorted_wrt gap3 ds" and "\<forall>d\<in>set ds. c_idx d \<le> c_idx c"
  shows "sorted_wrt gap3 (dedup_insert c ds)"
  using assms
proof (induction ds)
  case Nil
  then show ?case by simp
next
  case (Cons d ds)
  show ?case
  proof (cases "\<bar>int (c_idx d) - int (c_idx c)\<bar> < 3")
    case True
    have "ds = []"
    proof (rule ccontr)
      assume "ds \<noteq> []"
      then obtain e where e: "e \<in> set ds" by (cases ds) auto
      with Cons.prems have "c_idx d + 3 \<le> c_idx e" "c_idx e \<le> c_idx c"
        by (auto simp: gap3_def)
      with True show False by simp
    qed
    then show ?thesis using True by simp
  next
    case False
    with Cons.prems have far: "c_idx d + 3 \<le> c_idx c" by auto
    have "sorted_wrt gap3 (dedup_insert c ds)"
      using Cons by simp
    moreover have "\<forall>e\<in>set (dedup_insert c ds). gap3 d e"
      using dedup_insert_subset[of c ds] Cons.prems(1) far by (auto simp: gap3_def)
    ultimately show ?thesis using False by simp
  qed
qed

lemma dedup_insert_le:
  "\<forall>d\<in>set ds. c_idx d \<le> c_idx c \<Longrightarrow> \<forall>d\<in>set (dedup_insert c ds). c_idx d \<le> c_idx c"
  using dedup_insert_subset[of c ds] by auto

lemma foldl_dedup_gap3:
  assumes "sorted (map c_idx cs)" and "sorted_wrt gap3 acc"
    and "\<forall>a\<in>set acc. \<forall>c\<in>set cs. c_idx a \<le> c_idx c"
  shows "sorted_wrt gap3 (foldl (\<lambda>deduped c. dedup_insert c deduped) acc cs)"
  using assms
proof (induction cs arbitrary: acc)
  case Nil
  then show ?case by simp
next
  case (Cons c cs)
  have 1: "sorted_wrt gap3 (dedup_insert c acc)"
    using Cons.prems by (intro dedup_insert_gap3) auto
  have 2: "\<forall>a\<in>set (dedup_insert c acc). \<forall>c'\<in>set cs. c_idx a \<le> c_idx c'"
    using dedup_insert_subset[of c acc] Cons.prems by auto
  have 3: "sorted (map c_idx cs)" using Cons.prems by simp
  show ?case using Cons.IH[OF 3 1 2] by simp
qed

lemma dedupe_candidates_gap3:
  "sorted (map c_idx cs) \<Longrightarrow> sorted_wrt gap3 (dedupe_candidates cs)"
  unfolding dedupe_candidates_def by (rule foldl_dedup_gap3) auto

lemma space_after_subset: "set (space_after route ix l cs) \<subseteq> set cs"
  by (induction cs arbitrary: l) auto

lemma space_after_sorted_wrt:
  "sorted_wrt P cs \<Longrightarrow> sorted_wrt P (space_after route ix l cs)"
proof (induction cs arbitrary: l)
  case Nil
  then show ?case by simp
next
  case (Cons c cs)
  then show ?case using space_after_subset[of route ix c cs] by auto
qed

lemma space_after_Cons_sorted_wrt:
  "sorted_wrt P (l # cs) \<Longrightarrow> sorted_wrt P (l # space_after route ix l cs)"
  using space_after_subset[of route ix l cs] space_after_sorted_wrt[of P cs route ix l] by auto

lemma space_after_successively:
  "successively (\<lambda>a b. spaced route (ix a) (ix b)) (l # space_after route ix l cs)"
proof (induction cs arbitrary: l)
  case Nil
  then show ?case by simp
next
  case (Cons c cs)
  then show ?case by (simp add: spaced_def)
qed

lemma successively_take: "successively P xs \<Longrightarrow> successively P (take n xs)"
proof -
  assume "successively P xs"
  then have "successively P (take n xs @ drop n xs)" by simp
  then show ?thesis unfolding successively_append_iff by simp
qed

lemma matchBusStops_ok: "stops_ok route (map c_idx (matchBusStops route gameStops r))"
proof -
  let ?cs = "sort_key c_idx (match_candidates route gameStops r)"
  let ?ds = "dedupe_candidates ?cs"
  have "sorted_wrt gap3 ?ds" by (rule dedupe_candidates_gap3) simp
  then have inc: "sorted_wrt (\<lambda>a b. c_idx a < c_idx b) ?ds"
    by (rule sorted_wrt_mono_rel[rotated]) (simp add: gap3_def)
  have 1: "sorted_wrt (\<lambda>a b. c_idx a < c_idx b) (select_spaced route ?ds)"
  proof (cases ?ds)
    case Nil
    then show ?thesis by (simp add: select_spaced_def)
  next
    case (Cons d ds)
    with inc have "sorted_wrt (\<lambda>a b. c_idx a < c_idx b) (d # space_after route c_idx d ds)"
      by (intro space_after_Cons_sorted_wrt) simp
    with Cons show ?thesis by (simp add: select_spaced_def)
  qed
  have 2: "successively (\<lambda>a b. spaced route (c_idx a) (c_idx b)) (select_spaced route ?ds)"
  proof (cases ?ds)
    case Nil
    then show ?thesis by (simp add: select_spaced_def)
  next
    case (Cons d ds)
    have "successively (\<lambda>a b. spaced route (c_idx a) (c_idx b)) (d # space_after route c_idx d ds)"
      by (rule space_after_successively)
    with Cons show ?thesis by (simp add: select_spaced_def)
  qed
  from 1 have "sorted_wrt (\<lambda>a b. c_idx a < c_idx b) (take 10 (select_spaced route ?ds))"
    by (rule sorted_wrt_take)
  moreover from 2 have "successively (\<lambda>a b. spaced route (c_idx a) (c_idx b)) (take 10 (select_spaced route ?ds))"
    by (rule successively_take)
  ultimately show ?thesis
    by (simp add: stops_ok_def matchBusStops_def sorted_wrt_map successively_map)
qed

lemma assign_idx: "map s_idx (assignStreetNames ss labels) = map fst ss"
  by (induction ss) (auto simp: assignStreetNames_def split: option.splits)

lemma fold_merge_distinct:
  assumes "distinct (map s_idx ms)" and "seen = set (map s_idx ms)"
  shows "distinct (map s_idx (fst (fold merge_step syn (ms, seen))))"
  using assms
proof (induction syn arbitrary: ms seen)
  case Nil
  then show ?case by simp
next
  case (Cons s syn)
  show ?case
  proof (cases "s_idx s \<in> seen")
    case True
    then have "fold merge_step (s # syn) (ms, seen) = fold merge_step syn (ms, seen)"
      by (simp add: merge_step_def)
    then show ?thesis using Cons.IH[OF Cons.prems] by simp
  next
    case False
    have d: "distinct (map s_idx (ms @ [s]))" using Cons.prems False by auto
    have e: "insert (s_idx s) seen = set (map s_idx (ms @ [s]))"
      using Cons.prems by auto
    have "fold merge_step (s # syn) (ms, seen) = fold merge_step syn (ms @ [s], insert (s_idx s) seen)"
      using False by (simp add: merge_step_def)
    then show ?thesis using Cons.IH[OF d e] by simp
  qed
qed

lemma merge_synthetic_distinct:
  "distinct (map s_idx ms) \<Longrightarrow> distinct (map s_idx (merge_synthetic ms syn))"
  unfolding merge_synthetic_def by (rule fold_merge_distinct) auto

lemma stops_stage_ok:
  assumes "stops_stage route gameStops labels = Ok stops"
  shows "stops_ok route (map s_idx stops)"
proof -
  let ?matched = "matchBusStops route gameStops STOP_MATCH_RADIUS"
  let ?ms = "assignStreetNames (map (\<lambda>c. (c_idx c, c_name c)) ?matched) labels"
  have ms_idx: "map s_idx ?ms = map c_idx ?matched"
    by (simp add: assign_idx comp_def)
  have ok: "stops_ok route (map s_idx ?ms)"
    unfolding ms_idx by (rule matchBusStops_ok)
  show ?thesis
  proof (cases "length ?ms < 6")
    case False
    with assms have "stops = ?ms" by (simp add: stops_stage_def Let_def)
    with ok show ?thesis by simp
  next
    case True
    with assms obtain syn where syn: "synthesize (length route) = Ok syn"
      by (auto simp: stops_stage_def Let_def split: result.splits)
    let ?merged = "sort_key s_idx (merge_synthetic ?ms (assignStreetNames syn labels))"
    from assms True syn obtain m rest where m: "?merged = m # rest"
      and stops: "stops = take 10 (m # space_after route s_idx m rest)"
      by (auto simp: stops_stage_def Let_def split: list.splits)
    have "distinct (map s_idx ?ms)"
      using ok by (auto simp: stops_ok_def strict_sorted_iff)
    then have "distinct (map s_idx (merge_synthetic ?ms (assignStreetNames syn labels)))"
      by (rule merge_synthetic_distinct)
    then have "distinct (map s_idx ?merged)"
      by (simp add: distinct_map)
    moreover have "sorted (map s_idx ?merged)" by simp
    ultimately have "sorted_wrt (<) (map s_idx ?merged)"
      by (simp add: strict_sorted_iff)
    then have "sorted_wrt (\<lambda>a b. s_idx a < s_idx b) (m # rest)"
      unfolding m by (simp add: sorted_wrt_map)
    then have "sorted_wrt (\<lambda>a b. s_idx a < s_idx b) (m # space_after route s_idx m rest)"
      by (rule space_after_Cons_sorted_wrt)
    then have 1: "sorted_wrt (\<lambda>a b. s_idx a < s_idx b) stops"
      unfolding stops by (rule sorted_wrt_take)
    have "successively (\<lambda>a b. spaced route (s_idx a) (s_idx b)) (m # space_after route s_idx m rest)"
      by (rule space_after_successively)
    then have 2: "successively (\<lambda>a b. spaced route (s_idx a) (s_idx b)) stops"
      unfolding stops by (rule successively_take)
    from 1 2 show ?thesis by (simp add: stops_ok_def sorted_wrt_map successively_map)
  qed
qed

lemma length_assignStreetNames: "length (assignStreetNames ss labels) = length ss"
  by (simp add: assignStreetNames_def)

lemma length_deduplicateStopNames: "length (deduplicateStopNames seen ss) = length ss"
  by (induction ss arbitrary: seen) (simp_all add: Let_def)

lemma stops_stage_length:
  assumes "stops_stage route gameStops labels = Ok stops"
  shows "length stops \<le> 10"
proof (cases "length (assignStreetNames (map (\<lambda>c. (c_idx c, c_name c))
          (matchBusStops route gameStops STOP_MATCH_RADIUS)) labels) < 6")
  case True
  with assms show ?thesis
    by (auto simp: stops_stage_def Let_def split: result.splits list.splits)
next
  case False
  with assms have "length stops = length (matchBusStops route gameStops STOP_MATCH_RADIUS)"
    by (auto simp: stops_stage_def Let_def length_assignStreetNames)
  then show ?thesis by (simp add: matchBusStops_def)
qed

subsection \<open>Evaluating the stop stage on concrete routes\<close>

lemmas geo_eval = dist2d_def hypot_axis_x hypot_axis_z hypot_less_iff hypot_greater_iff
  hypot_ge_iff hypot_le_iff hypot_mult_self MIN_STOP_SPACING_def STOP_MATCH_RADIUS_def

lemma stops_stage_synth:
  assumes "matchBusStops r gs STOP_MATCH_RADIUS = ms"
    and "assignStreetNames (map (\<lambda>c. (c_idx c, c_name c)) ms) L = named"
    and "length named < 6"
    and "synthesize (length r) = Ok syn"
    and "assignStreetNames syn L = synn"
    and "sort_key s_idx (merge_synthetic named synn) = m # rest"
    and "take 10 (m # space_after r s_idx m rest) = out"
  shows "stops_stage r gs L = Ok out"
  using assms by (simp add: stops_stage_def Let_def)

text \<open>A straight route of 9 points, 25 apart, with no bus stop of the dataset near it.\<close>

definition line9 :: "point list" where
  "line9 = [(0, 0), (25, 0), (50, 0), (75, 0), (100, 0), (125, 0), (150, 0), (175, 0), (200, 0)]"

definition labels9 :: "string list" where
  "labels9 = replicate 10 ''A''"

lemma stops_stage_line9:
  "stops_stage line9 [] labels9 =
     Ok [\<lparr>s_idx = 0, s_name = ''A''\<rparr>, \<lparr>s_idx = 2, s_name = ''A''\<rparr>,
         \<lparr>s_idx = 4, s_name = ''A''\<rparr>, \<lparr>s_idx = 6, s_name = ''A''\<rparr>]"
proof (rule stops_stage_synth)
  show "matchBusStops line9 [] STOP_MATCH_RADIUS = []"
    by (simp add: matchBusStops_def match_candidates_def dedupe_candidates_def select_spaced_def)
  show "assignStreetNames (map (\<lambda>c. (c_idx c, c_name c)) []) labels9 = []"
    by (simp add: assignStreetNames_def)
  show "length ([] :: stop list) < 6" by simp
  show "synthesize (length line9) =
     Ok [(0, Some ''Stop 0''), (1, Some ''Stop 1''), (2, Some ''Stop 2''), (3, Some ''Stop 3''),
         (4, Some ''Stop 4''), (5, Some ''Stop 5''), (6, Some ''Stop 6''), (7, Some ''Stop 7'')]"
    unfolding line9_def by code_simp
  show "assignStreetNames
     [(0, Some ''Stop 0''), (1, Some ''Stop 1''), (2, Some ''Stop 2''), (3, Some ''Stop 3''),
      (4, Some ''Stop 4''), (5, Some ''Stop 5''), (6, Some ''Stop 6''), (7, Some ''Stop 7'')] labels9
     = map (\<lambda>i. \<lparr>s_idx = i, s_name = ''A''\<rparr>) [0, 1, 2, 3, 4, 5, 6, 7]"
    by code_simp
  show "sort_key s_idx (merge_synthetic []
          (map (\<lambda>i. \<lparr>s_idx = i, s_name = ''A''\<rparr>) [0, 1, 2, 3, 4, 5, 6, 7]))
     = \<lparr>s_idx = 0, s_name = ''A''\<rparr> # map (\<lambda>i. \<lparr>s_idx = i, s_name = ''A''\<rparr>) [1, 2, 3, 4, 5, 6, 7]"
    by code_simp
  show "take 10 (\<lparr>s_idx = 0, s_name = ''A''\<rparr>
          # space_after line9 s_idx \<lparr>s_idx = 0, s_name = ''A''\<rparr>
              (map (\<lambda>i. \<lparr>s_idx = i, s_name = ''A''\<rparr>) [1, 2, 3, 4, 5, 6, 7])) =
     [\<lparr>s_idx = 0, s_name = ''A''\<rparr>, \<lparr>s_idx = 2, s_name = ''A''\<rparr>,
      \<lparr>s_idx = 4, s_name = ''A''\<rparr>, \<lparr>s_idx = 6, s_name = ''A''\<rparr>]"
    by (simp add: line9_def geo_eval)
qed

text \<open>
  A straight route of 23 points, 25 apart: the stride is 2 and eleven synthetic stops,
  50 apart, pass the spacing filter.
\<close>

definition line23 :: "point list" where
  "line23 = [(0, 0), (25, 0), (50, 0), (75, 0), (100, 0), (125, 0), (150, 0), (175, 0), (200, 0), (225, 0), (250, 0), (275, 0), (300, 0), (325, 0), (350, 0), (375, 0), (400, 0), (425, 0), (450, 0), (475, 0), (500, 0), (525, 0), (550, 0)]"

lemma stops_stage_line23:
  "stops_stage line23 [] labels9 = Ok (map (\<lambda>i. \<lparr>s_idx = i, s_name = ''A''\<rparr>) [0, 2, 4, 6, 8, 10, 12, 14, 16, 18])"
proof (rule stops_stage_synth)
  show "matchBusStops line23 [] STOP_MATCH_RADIUS = []"
    by (simp add: matchBusStops_def match_candidates_def dedupe_candidates_def select_spaced_def)
  show "assignStreetNames (map (\<lambda>c. (c_idx c, c_name c)) []) labels9 = []"
    by (simp add: assignStreetNames_def)
  show "length ([] :: stop list) < 6" by simp
  show "synthesize (length line23) = Ok [(0, Some ''Stop 0''), (2, Some ''Stop 2''), (4, Some ''Stop 4''), (6, Some ''Stop 6''), (8, Some ''Stop 8''), (10, Some ''Stop 10''), (12, Some ''Stop 12''), (14, Some ''Stop 14''), (16, Some ''Stop 16''), (18, Some ''Stop 18''), (20, Some ''Stop 20'')]"
    unfolding line23_def by code_simp
  show "assignStreetNames [(0, Some ''Stop 0''), (2, Some ''Stop 2''), (4, Some ''Stop 4''), (6, Some ''Stop 6''), (8, Some ''Stop 8''), (10, Some ''Stop 10''), (12, Some ''Stop 12''), (14, Some ''Stop 14''), (16, Some ''Stop 16''), (18, Some ''Stop 18''), (20, Some ''Stop 20'')] labels9 = map (\<lambda>i. \<lparr>s_idx = i, s_name = ''A''\<rparr>) [0, 2, 4, 6, 8, 10, 12, 14, 16, 18, 20]"
    by code_simp
  show "sort_key s_idx (merge_synthetic [] (map (\<lambda>i. \<lparr>s_idx = i, s_name = ''A''\<rparr>) [0, 2, 4, 6, 8, 10, 12, 14, 16, 18, 20]))
     = \<lparr>s_idx = 0, s_name = ''A''\<rparr> # map (\<lambda>i. \<lparr>s_idx = i, s_name = ''A''\<rparr>) [2, 4, 6, 8, 10, 12, 14, 16, 18, 20]"
    by code_simp
  show "take 10 (\<lparr>s_idx = 0, s_name = ''A''\<rparr>
          # space_after line23 s_idx \<lparr>s_idx = 0, s_name = ''A''\<rparr>
              (map (\<lambda>i. \<lparr>s_idx = i, s_name = ''A''\<rparr>) [2, 4, 6, 8, 10, 12, 14, 16, 18, 20])) =
     map (\<lambda>i. \<lparr>s_idx = i, s_name = ''A''\<rparr>) [0, 2, 4, 6, 8, 10, 12, 14, 16, 18]"
    by (simp add: line23_def geo_eval)
qed

section \<open>The claims about stop matching\<close>

text \<open>
  C2. In the stop list of the direct path (\<open>matchBusStops\<close>) and in the stop list that
  leaves step 7 (which is the merge with the synthetic stops when fewer than 6 matched),
  the route indices are strictly increasing and the route points of every two adjacent
  stops are at least \<open>MIN_STOP_SPACING = 40\<close> apart.
\<close>

theorem stop_order_and_spacing:
  "stops_ok finalRoute (map c_idx (matchBusStops finalRoute gameStops matchRadius))
   \<and> (stops_stage finalRoute gameStops labels = Ok stops
        \<longrightarrow> stops_ok finalRoute (map s_idx stops))"
  using matchBusStops_ok stops_stage_ok by blast

theorem stop_order_and_spacing_witness:
  "stops_stage line9 [] labels9 =
     Ok [\<lparr>s_idx = 0, s_name = ''A''\<rparr>, \<lparr>s_idx = 2, s_name = ''A''\<rparr>,
         \<lparr>s_idx = 4, s_name = ''A''\<rparr>, \<lparr>s_idx = 6, s_name = ''A''\<rparr>]
   \<and> stops_ok line9 [0, 2, 4, 6]"
  using stop_order_and_spacing[of line9 "[]" 30 labels9
      "[\<lparr>s_idx = 0, s_name = ''A''\<rparr>, \<lparr>s_idx = 2, s_name = ''A''\<rparr>,
        \<lparr>s_idx = 4, s_name = ''A''\<rparr>, \<lparr>s_idx = 6, s_name = ''A''\<rparr>]"]
    stops_stage_line9
  by simp

text \<open>
  C10. The stop list has at most 10 entries: \<open>matchBusStops\<close> returns at most 10, step 7
  hands on at most 10 on either path, and \<open>deduplicateStopNames\<close>, which produces the
  emitted list, keeps the length.
\<close>

theorem stops_at_most_ten:
  "length (matchBusStops finalRoute gameStops matchRadius) \<le> 10
   \<and> (stops_stage finalRoute gameStops labels = Ok stops
        \<longrightarrow> length stops \<le> 10 \<and> length (deduplicateStopNames Map.empty stops) \<le> 10)"
  using stops_stage_length[of finalRoute gameStops labels stops]
  by (simp add: matchBusStops_def length_deduplicateStopNames)

theorem stops_at_most_ten_witness:
  "stops_stage line23 [] labels9 = Ok (map (\<lambda>i. \<lparr>s_idx = i, s_name = ''A''\<rparr>) [0, 2, 4, 6, 8, 10, 12, 14, 16, 18])
   \<and> length (deduplicateStopNames Map.empty (map (\<lambda>i. \<lparr>s_idx = i, s_name = ''A''\<rparr>) [0, 2, 4, 6, 8, 10, 12, 14, 16, 18])) \<le> 10"
  using stops_at_most_ten[of line23 "[]" 30 labels9
      "map (\<lambda>i. \<lparr>s_idx = i, s_name = ''A''\<rparr>) [0, 2, 4, 6, 8, 10, 12, 14, 16, 18]"]
    stops_stage_line23
  by simp

lemma dedup_insert_none:
  "(\<And>d. d \<in> set kept \<Longrightarrow> \<not> in_window d c) \<Longrightarrow> dedup_insert c kept = kept @ [c]"
  by (induction kept) (simp_all add: in_window_def)

lemma dedup_insert_first:
  assumes "k < length kept" and "in_window (kept ! k) c"
    and "\<And>j. j < k \<Longrightarrow> \<not> in_window (kept ! j) c"
  shows "dedup_insert c kept = (if replaces c (kept ! k) then kept[k := c] else kept)"
  using assms
proof (induction kept arbitrary: k)
  case Nil
  then show ?case by simp
next
  case (Cons d ds)
  show ?case
  proof (cases k)
    case 0
    with Cons.prems(2) show ?thesis by (auto simp: in_window_def replaces_def)
  next
    case (Suc k')
    have nd: "\<not> in_window d c" using Cons.prems(3)[of 0] Suc by simp
    have "dedup_insert c ds = (if replaces c (ds ! k') then ds[k' := c] else ds)"
    proof (rule Cons.IH)
      show "k' < length ds" using Cons.prems(1) Suc by simp
      show "in_window (ds ! k') c" using Cons.prems(2) Suc by simp
      fix j assume "j < k'"
      then show "\<not> in_window (ds ! j) c" using Cons.prems(3)[of "Suc j"] Suc by simp
    qed
    with nd Suc show ?thesis by (simp add: in_window_def)
  qed
qed

lemma dedupe_candidates_snoc:
  "dedupe_candidates (cs @ [c]) = dedup_insert c (dedupe_candidates cs)"
  by (simp add: dedupe_candidates_def)

text \<open>
  C8, as the script does it. The candidates are scanned in index order, each against the
  entries kept so far. A candidate with no kept entry less than 3 indices away is pushed.
  Otherwise it is merged into the first kept entry less than 3 indices away, wherever
  that entry stands in the kept list: the candidate takes its place when the kept entry
  has no name and the candidate has one, or when both have names and the candidate is
  strictly closer; in every other case the kept list stays as it is, whatever the
  distances. After the scan no two entries are less than 3 indices apart.
\<close>

theorem dedup_window:
  "dedupe_candidates [] = []
   \<and> dedupe_candidates (cs @ [c]) = dedup_insert c (dedupe_candidates cs)
   \<and> ((\<forall>d \<in> set kept. \<not> in_window d c) \<longrightarrow> dedup_insert c kept = kept @ [c])
   \<and> (k < length kept \<and> in_window (kept ! k) c \<and> (\<forall>j < k. \<not> in_window (kept ! j) c)
        \<longrightarrow> dedup_insert c kept = (if replaces c (kept ! k) then kept[k := c] else kept))
   \<and> (sorted (map c_idx cs) \<longrightarrow> sorted_wrt gap3 (dedupe_candidates cs))"
  using dedup_insert_none[of kept c] dedup_insert_first[of k kept c]
    dedupe_candidates_gap3[of cs] dedupe_candidates_snoc[of cs c]
  by (simp add: dedupe_candidates_def)

text \<open>
  A kept list of two entries, \<open>X\<close> at index 0 and \<open>A\<close> at index 5: the unnamed \<open>B\<close> at index
  6 is merged into \<open>A\<close> and dropped, the named and closer \<open>C\<close> at index 7 takes the place of
  \<open>A\<close>.
\<close>

definition cand_X :: candidate where
  "cand_X = \<lparr>c_idx = 0, c_dist = 4, c_name = Some ''X'', c_lat = 0, c_lon = 0\<rparr>"

definition cand_A :: candidate where
  "cand_A = \<lparr>c_idx = 5, c_dist = 12, c_name = Some ''A'', c_lat = 0, c_lon = 0\<rparr>"

definition cand_B :: candidate where
  "cand_B = \<lparr>c_idx = 6, c_dist = 1, c_name = None, c_lat = 0, c_lon = 0\<rparr>"

definition cand_C :: candidate where
  "cand_C = \<lparr>c_idx = 7, c_dist = 5, c_name = Some ''C'', c_lat = 0, c_lon = 0\<rparr>"

theorem dedup_window_witness:
  "dedupe_candidates [cand_X, cand_A] = [cand_X, cand_A]
   \<and> dedup_insert cand_B [cand_X, cand_A] = [cand_X, cand_A]
   \<and> dedup_insert cand_C [cand_X, cand_A] = [cand_X, cand_C]
   \<and> dedupe_candidates [cand_X, cand_A, cand_B, cand_C] = [cand_X, cand_C]
   \<and> sorted_wrt gap3 (dedupe_candidates [cand_X, cand_A, cand_B, cand_C])"
proof -
  have w: "in_window cand_A cand_B" "\<not> in_window cand_X cand_B"
    "in_window cand_A cand_C" "\<not> in_window cand_X cand_C"
    "\<not> replaces cand_B cand_A" "replaces cand_C cand_A"
    by (simp_all add: in_window_def replaces_def truthy_def cand_X_def cand_A_def cand_B_def
        cand_C_def)
  have s: "sorted (map c_idx [cand_X, cand_A, cand_B, cand_C])"
    by (simp add: cand_X_def cand_A_def cand_B_def cand_C_def)
  have b: "dedup_insert cand_B [cand_X, cand_A] = [cand_X, cand_A]"
    using dedup_window[of "[]" cand_B "[cand_X, cand_A]" 1] w by (simp add: less_Suc_eq)
  have c: "dedup_insert cand_C [cand_X, cand_A] = [cand_X, cand_C]"
    using dedup_window[of "[]" cand_C "[cand_X, cand_A]" 1] w by (simp add: less_Suc_eq)
  have xa: "dedupe_candidates [cand_X, cand_A] = [cand_X, cand_A]"
    by (simp add: dedupe_candidates_def cand_X_def cand_A_def)
  have all: "dedupe_candidates [cand_X, cand_A, cand_B, cand_C] = [cand_X, cand_C]"
    using dedup_window[of "[cand_X, cand_A, cand_B]" cand_C "[]" 0]
      dedup_window[of "[cand_X, cand_A]" cand_B "[]" 0] xa b c by simp
  from dedup_window[of "[cand_X, cand_A, cand_B, cand_C]" cand_C "[]" 0] s
  have "sorted_wrt gap3 (dedupe_candidates [cand_X, cand_A, cand_B, cand_C])" by blast
  with xa b c all show ?thesis by simp
qed

text \<open>
  Five bus stops matched to the route points 0, 1, 3, 5 and 6. The two without a name,
  at the points 0 and 1, leave the first one, at distance 10, not the closer one at
  distance 1. Of the named stops \<open>B\<close> (point 5, distance 2) and \<open>C\<close> (point 6, distance
  5) the one that survives is \<open>C\<close>: \<open>B\<close> was merged into \<open>A\<close> (point 3), and \<open>C\<close> is three
  indices from \<open>A\<close>.
\<close>

definition dedup_route :: "point list" where
  "dedup_route = [(0, 0), (25, 0), (50, 0), (75, 0), (100, 0), (125, 0), (150, 0)]"

definition dedup_stops :: "game_stop list" where
  "dedup_stops =
      [\<lparr>gs_lat = 0, gs_lon = 0, gs_name = None, gamePos = (0, 10)\<rparr>,
       \<lparr>gs_lat = 0, gs_lon = 0, gs_name = None, gamePos = (25, 1)\<rparr>,
       \<lparr>gs_lat = 0, gs_lon = 0, gs_name = Some ''A'', gamePos = (75, 1)\<rparr>,
       \<lparr>gs_lat = 0, gs_lon = 0, gs_name = Some ''B'', gamePos = (125, 2)\<rparr>,
       \<lparr>gs_lat = 0, gs_lon = 0, gs_name = Some ''C'', gamePos = (150, 5)\<rparr>]"

theorem dedup_closer_counterexample:
  "match_candidates dedup_route dedup_stops 30
     = [\<lparr>c_idx = 0, c_dist = 10, c_name = None, c_lat = 0, c_lon = 0\<rparr>,
        \<lparr>c_idx = 1, c_dist = 1, c_name = None, c_lat = 0, c_lon = 0\<rparr>,
        \<lparr>c_idx = 3, c_dist = 1, c_name = Some ''A'', c_lat = 0, c_lon = 0\<rparr>,
        \<lparr>c_idx = 5, c_dist = 2, c_name = Some ''B'', c_lat = 0, c_lon = 0\<rparr>,
        \<lparr>c_idx = 6, c_dist = 5, c_name = Some ''C'', c_lat = 0, c_lon = 0\<rparr>]
   \<and> matchBusStops dedup_route dedup_stops 30
     = [\<lparr>c_idx = 0, c_dist = 10, c_name = None, c_lat = 0, c_lon = 0\<rparr>,
        \<lparr>c_idx = 3, c_dist = 1, c_name = Some ''A'', c_lat = 0, c_lon = 0\<rparr>,
        \<lparr>c_idx = 6, c_dist = 5, c_name = Some ''C'', c_lat = 0, c_lon = 0\<rparr>]"
  by (simp add: matchBusStops_def match_candidates_def dedupe_candidates_def select_spaced_def
      dedup_route_def dedup_stops_def truthy_def geo_eval Let_def)

section \<open>Topology cleaning: the turn at interior points\<close>

text \<open>When the backtrack-removal loop returns, a further pass would remove nothing.\<close>

lemma clean_loop_fixed: "toRemove (fst (clean_loop (route, labels))) = []"
proof (induction "(route, labels)" arbitrary: route labels rule: clean_loop.induct)
  case (1 route labels)
  show ?case
  proof (cases "toRemove route = []")
    case True
    then show ?thesis by (simp add: clean_loop.simps[of route])
  next
    case False
    then show ?thesis
      using "1.hyps"[OF refl False] by (simp add: clean_loop.simps[of route] Let_def)
  qed
qed

text \<open>
  So directly after the loop, before the duplicate points are collapsed, no interior
  point has a negative dot product of its two segments.
\<close>

lemma clean_loop_no_backtrack:
  assumes "cleaned = fst (clean_loop (route, labels))"
    and "1 \<le> i" and "i + 1 < length cleaned"
  shows "0 \<le> seg_dot (cleaned ! (i - 1)) (cleaned ! i) (cleaned ! (i + 1))"
proof -
  have "toRemove cleaned = []" unfolding assms(1) by (rule clean_loop_fixed)
  moreover have "i \<in> set [1 ..< length cleaned - 1]" using assms(2,3) by simp
  ultimately have "\<not> backtrack_at (cleaned ! (i - 1)) (cleaned ! i) (cleaned ! (i + 1))"
    unfolding toRemove_def filter_empty_conv by blast
  then show ?thesis by (simp add: backtrack_at_iff)
qed

text \<open>
  A route of 10 points that runs east along \<open>z = 0\<close>, steps 0.3 to the side and runs
  back west (the two carriageways of a divided road). The loop removes nothing: both
  corners are right angles. The collapse of close points then drops the corner
  \<open>(250, 0.3)\<close>, and the point \<open>(250, - (1 / 5))\<close> is left with its two segments pointing in
  opposite directions.
\<close>

definition uturn_route :: "point list" where
  "uturn_route = [(-250, - (1 / 5)), (-125, - (1 / 5)), (0, - (1 / 5)), (125, - (1 / 5)), (250, - (1 / 5)), (250, 1 / 5), (125, 1 / 5), (0, 1 / 5), (-125, 1 / 5), (-250, 1 / 5)]"

definition uturn_labels :: "string list" where
  "uturn_labels = replicate 10 ''Whitehall''"

lemma uturn_toRemove: "toRemove uturn_route = []"
  by (simp add: toRemove_def uturn_route_def backtrack_at_sq seg_dot_def upt_conv_Cons)

lemma uturn_clean_loop: "clean_loop (uturn_route, uturn_labels) = (uturn_route, uturn_labels)"
  by (simp add: clean_loop.simps[of uturn_route] uturn_toRemove)

lemma uturn_dedupe:
  "fst (dedupe_consecutive (uturn_route, uturn_labels)) =
     [(-250, - (1 / 5)), (-125, - (1 / 5)), (0, - (1 / 5)), (125, - (1 / 5)), (250, - (1 / 5)), (125, 1 / 5), (0, 1 / 5), (-125, 1 / 5), (-250, 1 / 5)]"
  by (simp add: dedupe_consecutive_def dedupe_step_sq uturn_route_def upt_conv_Cons)

text \<open>
  C5 on this route: after the whole of step 5a the cleaned route has an interior point
  (index 4) whose incoming and outgoing segments have the dot product \<open>-15625\<close>.
\<close>

theorem cleanup_leaves_backtrack:
  "fst (cleanup uturn_route uturn_labels) =
     [(-250, - (1 / 5)), (-125, - (1 / 5)), (0, - (1 / 5)), (125, - (1 / 5)), (250, - (1 / 5)), (125, 1 / 5), (0, 1 / 5), (-125, 1 / 5), (-250, 1 / 5)]
   \<and> seg_dot (fst (cleanup uturn_route uturn_labels) ! 3)
        (fst (cleanup uturn_route uturn_labels) ! 4)
        (fst (cleanup uturn_route uturn_labels) ! 5) = - 15625"
  by (simp add: cleanup_def uturn_clean_loop uturn_dedupe seg_dot_def)

section \<open>Resampling: the maximum gap\<close>

lemma hypot_triangle: "hypot (a + c) (b + d) \<le> hypot a b + hypot c d"
  using real_sqrt_sum_squares_triangle_ineq[of a c b d]
  by (simp add: hypot_def power2_eq_square)

lemma pdist_triangle: "pdist p r \<le> pdist p q + pdist q r"
  using hypot_triangle[of "fst p - fst q" "fst q - fst r" "snd p - snd q" "snd q - snd r"]
  by (simp add: pdist_def)

lemma pdist_sym: "pdist p q = pdist q p"
proof -
  have "(fst p - fst q) * (fst p - fst q) = (fst q - fst p) * (fst q - fst p)"
    "(snd p - snd q) * (snd p - snd q) = (snd q - snd p) * (snd q - snd p)"
    by (simp_all add: algebra_simps)
  then show ?thesis by (simp add: pdist_def hypot_def)
qed

lemma pdist_nonneg: "0 \<le> pdist p q"
  by (simp add: pdist_def hypot_nonneg)

lemma hypot_scale: "hypot (t * a) (t * b) = \<bar>t\<bar> * hypot a b"
proof -
  have "t * a * (t * a) + t * b * (t * b) = t\<^sup>2 * (a * a + b * b)"
    by (simp add: power2_eq_square algebra_simps)
  then show ?thesis by (simp add: hypot_def real_sqrt_mult)
qed

lemma hypot_small:
  assumes "\<bar>a\<bar> \<le> 1 / 20" and "\<bar>b\<bar> \<le> 1 / 20"
  shows "hypot a b \<le> sqrt 2 / 20"
proof -
  have sq: "\<bar>x\<bar> \<le> 1 / 20 \<Longrightarrow> x * x \<le> (1 / 20) * (1 / 20)" for x :: real
  proof -
    assume "\<bar>x\<bar> \<le> 1 / 20"
    then have "\<bar>x\<bar> * \<bar>x\<bar> \<le> (1 / 20) * (1 / 20)"
      by (intro mult_mono) simp_all
    then show ?thesis by simp
  qed
  have "a * a \<le> (1 / 20) * (1 / 20)" using assms(1) by (rule sq)
  moreover have "b * b \<le> (1 / 20) * (1 / 20)" using assms(2) by (rule sq)
  ultimately have "a * a + b * b \<le> 2 / 400" by simp
  then have "sqrt (a * a + b * b) \<le> sqrt (2 / 400)" by (rule real_sqrt_le_mono)
  also have "sqrt (2 / 400) = sqrt 2 / sqrt 400" by (rule real_sqrt_divide)
  also have "sqrt 400 = 20"
    by (rule real_sqrt_unique) simp_all
  finally show ?thesis by (simp add: hypot_def)
qed

lemma round1_close: "\<bar>round1 v - v\<bar> \<le> 1 / 20"
proof -
  let ?k = "\<lfloor>v * 10 + 1 / 2\<rfloor>"
  have "of_int ?k \<le> v * 10 + 1 / 2" by (rule of_int_floor_le)
  moreover have "v * 10 + 1 / 2 < of_int ?k + 1" by (rule real_of_int_floor_add_one_gt)
  ultimately have "\<bar>of_int ?k - v * 10\<bar> \<le> 1 / 2" by linarith
  then have "\<bar>of_int ?k / 10 - v\<bar> \<le> 1 / 20" by (simp add: field_simps abs_le_iff)
  then show ?thesis by (simp add: round1_def js_round_def)
qed

definition cum_upto :: "point list \<Rightarrow> nat \<Rightarrow> real list" where
  "cum_upto route k = fold (cumLen_step route) [1 ..< k] [0]"

lemma cum_upto_Suc: "1 \<le> k \<Longrightarrow> cum_upto route (Suc k) = cumLen_step route k (cum_upto route k)"
  by (simp add: cum_upto_def)

lemma cum_upto_props:
  "1 \<le> k \<Longrightarrow> length (cum_upto route k) = k \<and> cum_upto route k ! 0 = 0
     \<and> (\<forall>i. Suc i < k \<longrightarrow> cum_upto route k ! Suc i = cum_upto route k ! i + pdist (route ! Suc i) (route ! i))"
proof (induction k)
  case 0
  then show ?case by simp
next
  case (Suc k)
  show ?case
  proof (cases "k = 0")
    case True
    then show ?thesis by (simp add: cum_upto_def)
  next
    case False
    then have k: "1 \<le> k" by simp
    note IH = Suc.IH[OF k]
    let ?c = "cum_upto route k"
    have eq: "cum_upto route (Suc k) = ?c @ [?c ! (k - 1) + pdist (route ! k) (route ! (k - 1))]"
      using k by (simp add: cum_upto_Suc cumLen_step_def pdist_def)
    have len: "length ?c = k" using IH by simp
    show ?thesis
    proof (intro conjI allI impI)
      show "length (cum_upto route (Suc k)) = Suc k" using eq len by simp
      show "cum_upto route (Suc k) ! 0 = 0" using eq len k IH by (simp add: nth_append)
      fix i assume i: "Suc i < Suc k"
      show "cum_upto route (Suc k) ! Suc i = cum_upto route (Suc k) ! i + pdist (route ! Suc i) (route ! i)"
      proof (cases "Suc i < k")
        case True
        then show ?thesis using eq len IH by (simp add: nth_append)
      next
        case False
        with i have "Suc i = k" by simp
        then show ?thesis using eq len by (auto simp: nth_append)
      qed
    qed
  qed
qed

lemma cumLen_of_props:
  assumes "1 \<le> length route"
  shows "length (cumLen_of route) = length route"
    and "cumLen_of route ! 0 = 0"
    and "Suc i < length route \<Longrightarrow>
          cumLen_of route ! Suc i = cumLen_of route ! i + pdist (route ! Suc i) (route ! i)"
  using cum_upto_props[OF assms, of route] by (simp_all add: cumLen_of_def cum_upto_def)

lemma cumLen_mono_Suc:
  "Suc i < length route \<Longrightarrow> cumLen_of route ! i \<le> cumLen_of route ! Suc i"
  using cumLen_of_props(3)[of route i] pdist_nonneg[of "route ! Suc i" "route ! i"] by simp

lemma cumLen_mono:
  "i \<le> j \<Longrightarrow> j < length route \<Longrightarrow> cumLen_of route ! i \<le> cumLen_of route ! j"
proof (induction j)
  case 0
  then show ?case by simp
next
  case (Suc j)
  show ?case
  proof (cases "i = Suc j")
    case True
    then show ?thesis by simp
  next
    case False
    with Suc.prems have "i \<le> j" by simp
    then have "cumLen_of route ! i \<le> cumLen_of route ! j" using Suc by simp
    also have "\<dots> \<le> cumLen_of route ! Suc j" using Suc.prems by (intro cumLen_mono_Suc)
    finally show ?thesis .
  qed
qed

lemma polyline_chord:
  "i \<le> j \<Longrightarrow> j < length route \<Longrightarrow>
     pdist (route ! i) (route ! j) \<le> cumLen_of route ! j - cumLen_of route ! i"
proof (induction j)
  case 0
  then show ?case by (simp add: pdist_def hypot_def)
next
  case (Suc j)
  show ?case
  proof (cases "i = Suc j")
    case True
    then show ?thesis by (simp add: pdist_def hypot_def)
  next
    case False
    with Suc.prems have ij: "i \<le> j" by simp
    have "pdist (route ! i) (route ! Suc j)
            \<le> pdist (route ! i) (route ! j) + pdist (route ! j) (route ! Suc j)"
      by (rule pdist_triangle)
    also have "pdist (route ! i) (route ! j) \<le> cumLen_of route ! j - cumLen_of route ! i"
      using Suc ij by simp
    also have "pdist (route ! j) (route ! Suc j) = cumLen_of route ! Suc j - cumLen_of route ! j"
      using cumLen_of_props(3)[of route j] Suc.prems by (simp add: pdist_sym)
    finally show ?thesis by simp
  qed
qed


lemma seg_t_props:
  assumes "onseg route k s"
  shows "0 \<le> seg_t (cumLen_of route) k s"
    and "seg_t (cumLen_of route) k s \<le> 1"
    and "seg_t (cumLen_of route) k s * pdist (route ! Suc k) (route ! k) = s - cumLen_of route ! k"
proof -
  let ?c = "cumLen_of route"
  let ?len = "?c ! Suc k - ?c ! k"
  from assms have k: "Suc k < length route" and lo: "?c ! k \<le> s" and hi: "s \<le> ?c ! Suc k"
    by (auto simp: onseg_def)
  have len: "?len = pdist (route ! Suc k) (route ! k)"
    using cumLen_of_props(3)[of route k] k by simp
  show "0 \<le> seg_t ?c k s" using lo by (simp add: seg_t_def Let_def)
  show "seg_t ?c k s \<le> 1" using lo hi by (simp add: seg_t_def Let_def)
  show "seg_t ?c k s * pdist (route ! Suc k) (route ! k) = s - ?c ! k"
  proof (cases "?len > 0")
    case True
    then show ?thesis unfolding len[symmetric] by (simp add: seg_t_def Let_def)
  next
    case False
    with lo hi have "s - ?c ! k = 0" by simp
    with False show ?thesis by (simp add: seg_t_def Let_def)
  qed
qed

lemma exact_to_start:
  assumes "onseg route k s"
  shows "pdist (exact_point route k s) (route ! k) = s - cumLen_of route ! k"
proof -
  let ?t = "seg_t (cumLen_of route) k s"
  have "pdist (exact_point route k s) (route ! k)
          = hypot (?t * (fst (route ! Suc k) - fst (route ! k))) (?t * (snd (route ! Suc k) - snd (route ! k)))"
    by (simp add: pdist_def exact_point_def Let_def)
  also have "\<dots> = \<bar>?t\<bar> * pdist (route ! Suc k) (route ! k)"
    by (simp add: hypot_scale pdist_def)
  also have "\<dots> = s - cumLen_of route ! k"
    using seg_t_props(1,3)[OF assms] by simp
  finally show ?thesis .
qed

lemma exact_to_end:
  assumes "onseg route k s"
  shows "pdist (exact_point route k s) (route ! Suc k) = cumLen_of route ! Suc k - s"
proof -
  let ?t = "seg_t (cumLen_of route) k s"
  let ?dx = "fst (route ! Suc k) - fst (route ! k)"
  let ?dz = "snd (route ! Suc k) - snd (route ! k)"
  from assms have k: "Suc k < length route" by (simp add: onseg_def)
  have "fst (exact_point route k s) - fst (route ! Suc k) = (?t - 1) * ?dx"
    "snd (exact_point route k s) - snd (route ! Suc k) = (?t - 1) * ?dz"
    by (simp_all add: exact_point_def Let_def algebra_simps)
  then have "pdist (exact_point route k s) (route ! Suc k) = hypot ((?t - 1) * ?dx) ((?t - 1) * ?dz)"
    by (simp add: pdist_def)
  also have "\<dots> = \<bar>?t - 1\<bar> * pdist (route ! Suc k) (route ! k)"
    by (simp add: hypot_scale pdist_def)
  also have "\<dots> = (1 - ?t) * pdist (route ! Suc k) (route ! k)"
    using seg_t_props(2)[OF assms] by simp
  also have "\<dots> = pdist (route ! Suc k) (route ! k) - (s - cumLen_of route ! k)"
    using seg_t_props(3)[OF assms] by (simp add: algebra_simps)
  also have "\<dots> = cumLen_of route ! Suc k - s"
    using cumLen_of_props(3)[of route k] k by simp
  finally show ?thesis .
qed

lemma exact_same_segment:
  assumes "onseg route k s" and "onseg route k s'"
  shows "pdist (exact_point route k s) (exact_point route k s') = \<bar>s - s'\<bar>"
proof -
  let ?t = "seg_t (cumLen_of route) k s"
  let ?t' = "seg_t (cumLen_of route) k s'"
  let ?dx = "fst (route ! Suc k) - fst (route ! k)"
  let ?dz = "snd (route ! Suc k) - snd (route ! k)"
  let ?len = "pdist (route ! Suc k) (route ! k)"
  have "fst (exact_point route k s) - fst (exact_point route k s') = (?t - ?t') * ?dx"
    "snd (exact_point route k s) - snd (exact_point route k s') = (?t - ?t') * ?dz"
    by (simp_all add: exact_point_def Let_def algebra_simps)
  then have "pdist (exact_point route k s) (exact_point route k s')
      = hypot ((?t - ?t') * ?dx) ((?t - ?t') * ?dz)"
    by (simp add: pdist_def)
  also have "\<dots> = \<bar>?t - ?t'\<bar> * ?len"
    by (simp add: hypot_scale pdist_def)
  also have "\<dots> = \<bar>(?t - ?t') * ?len\<bar>"
    using pdist_nonneg[of "route ! Suc k" "route ! k"] by (simp add: abs_mult)
  also have "(?t - ?t') * ?len = ?t * ?len - ?t' * ?len" by (simp add: algebra_simps)
  also have "\<dots> = s - s'"
    using seg_t_props(3)[OF assms(1)] seg_t_props(3)[OF assms(2)] by simp
  finally show ?thesis .
qed

lemma exact_lipschitz_lt:
  assumes "onseg route i s" and "onseg route j s'" and "i < j"
  shows "pdist (exact_point route i s) (exact_point route j s') \<le> s' - s"
proof -
  from assms have j: "Suc j < length route" by (simp add: onseg_def)
  have "pdist (exact_point route i s) (exact_point route j s')
          \<le> pdist (exact_point route i s) (route ! Suc i) + pdist (route ! Suc i) (exact_point route j s')"
    by (rule pdist_triangle)
  also have "pdist (route ! Suc i) (exact_point route j s')
          \<le> pdist (route ! Suc i) (route ! j) + pdist (route ! j) (exact_point route j s')"
    by (rule pdist_triangle)
  also have "pdist (exact_point route i s) (route ! Suc i) = cumLen_of route ! Suc i - s"
    by (rule exact_to_end[OF assms(1)])
  also have "pdist (route ! j) (exact_point route j s') = s' - cumLen_of route ! j"
    using exact_to_start[OF assms(2)] by (simp add: pdist_sym)
  also have "pdist (route ! Suc i) (route ! j) \<le> cumLen_of route ! j - cumLen_of route ! Suc i"
    using assms(3) j by (intro polyline_chord) simp_all
  finally show ?thesis by simp
qed

lemma exact_lipschitz:
  assumes "onseg route i s" and "onseg route j s'" and "s \<le> s'"
  shows "pdist (exact_point route i s) (exact_point route j s') \<le> s' - s"
proof -
  consider "i = j" | "i < j" | "j < i" by linarith
  then show ?thesis
  proof cases
    case 1
    then show ?thesis using exact_same_segment[OF assms(1)] assms(2,3) by simp
  next
    case 2
    then show ?thesis by (rule exact_lipschitz_lt[OF assms(1,2)])
  next
    case 3
    have "pdist (exact_point route j s') (exact_point route i s) \<le> s - s'"
      by (rule exact_lipschitz_lt[OF assms(2,1) 3])
    moreover have "0 \<le> pdist (exact_point route j s') (exact_point route i s)"
      by (rule pdist_nonneg)
    ultimately have "s = s'" "pdist (exact_point route j s') (exact_point route i s) = 0"
      using assms(3) by simp_all
    then show ?thesis by (simp add: pdist_sym)
  qed
qed

lemma within_rounding_refl: "within_rounding p p"
  by (simp add: within_rounding_def)

lemma within_rounding_pdist: "within_rounding p e \<Longrightarrow> pdist p e \<le> sqrt 2 / 20"
  unfolding within_rounding_def pdist_def by (intro hypot_small) simp_all

lemma interp_close:
  "within_rounding (interp_point route (cumLen_of route) k s) (exact_point route k s)"
  unfolding within_rounding_def interp_point_def exact_point_def Let_def fst_conv snd_conv
  by (intro conjI round1_close)

lemma advance_props:
  assumes "segIdx + 1 < n" and "c ! segIdx \<le> d"
  shows "advance c n d segIdx + 1 < n \<and> c ! advance c n d segIdx \<le> d
         \<and> (d \<le> c ! (advance c n d segIdx + 1) \<or> n \<le> advance c n d segIdx + 2)"
  using assms
proof (induction c n d segIdx rule: advance.induct)
  case (1 c n d segIdx)
  show ?case
  proof (cases "segIdx + 2 < n \<and> c ! (segIdx + 1) < d")
    case True
    then have "advance c n d segIdx = advance c n d (segIdx + 1)"
      by (subst advance.simps) simp
    moreover have "advance c n d (segIdx + 1) + 1 < n \<and> c ! advance c n d (segIdx + 1) \<le> d
         \<and> (d \<le> c ! (advance c n d (segIdx + 1) + 1) \<or> n \<le> advance c n d (segIdx + 1) + 2)"
      using True by (intro "1.IH") simp_all
    ultimately show ?thesis by simp
  next
    case False
    then have "advance c n d segIdx = segIdx"
      by (subst advance.simps) auto
    then show ?thesis using False "1.prems" by auto
  qed
qed

lemma gap_ok_bound:
  assumes "gap_ok p q"
  shows "dist2d (fst p) (snd p) (fst q) (snd q) \<le> SAMPLE_INTERVAL + sqrt 2 / 10"
proof -
  from assms obtain p' q' where p: "within_rounding p p'" and q: "within_rounding q q'"
    and d: "pdist p' q' \<le> 25"
    by (auto simp: gap_ok_def pdist_def dist2d_def SAMPLE_INTERVAL_def)
  have "pdist p q \<le> pdist p p' + pdist p' q" by (rule pdist_triangle)
  also have "pdist p' q \<le> pdist p' q' + pdist q' q" by (rule pdist_triangle)
  also have "pdist q' q \<le> sqrt 2 / 20"
    using within_rounding_pdist[OF q] by (simp add: pdist_sym)
  also have "pdist p p' \<le> sqrt 2 / 20" by (rule within_rounding_pdist[OF p])
  finally have "pdist p q \<le> 25 + sqrt 2 / 10" using d by simp
  then show ?thesis by (simp add: pdist_def dist2d_def SAMPLE_INTERVAL_def)
qed

lemma sample_loop_gap:
  assumes "c = cumLen_of route" and "totalLen = c ! (length route - 1)"
    and "out \<noteq> []" and "successively gap_ok out"
    and "\<exists>k. onseg route k (d - 25) \<and> within_rounding (last out) (exact_point route k (d - 25))"
    and "c ! seg \<le> d" and "seg + 1 < length route"
  shows "successively gap_ok (sample_loop route c totalLen d seg out)"
  using assms
proof (induction route c totalLen d seg out rule: sample_loop.induct)
  case (1 route c totalLen d seg out)
  note c = "1.prems"(1)
  show ?case
  proof (cases "d < totalLen")
    case False
    then have "sample_loop route c totalLen d seg out = out"
      by (subst sample_loop.simps) simp
    then show ?thesis using "1.prems"(4) by simp
  next
    case True
    define seg' where "seg' = advance c (length route) d seg"
    define p where "p = interp_point route c seg' d"
    have step: "sample_loop route c totalLen d seg out
                 = sample_loop route c totalLen (d + SAMPLE_INTERVAL) seg' (out @ [p])"
      using True
      by (subst sample_loop.simps) (simp add: seg'_def p_def Let_def)
    from advance_props[OF "1.prems"(7,6)]
    have s1: "seg' + 1 < length route" and s2: "c ! seg' \<le> d"
      and s3: "d \<le> c ! (seg' + 1) \<or> length route \<le> seg' + 2"
      by (simp_all add: seg'_def)
    have hi: "d \<le> c ! (seg' + 1)"
    proof (cases "d \<le> c ! (seg' + 1)")
      case True
      then show ?thesis .
    next
      case False
      with s3 s1 have "seg' + 1 = length route - 1" by simp
      with True "1.prems"(2) show ?thesis by simp
    qed
    have on: "onseg route seg' d" using s1 s2 hi by (simp add: onseg_def c)
    from "1.prems"(5) obtain k where k: "onseg route k (d - 25)"
      and kl: "within_rounding (last out) (exact_point route k (d - 25))" by blast
    have close: "within_rounding p (exact_point route seg' d)"
      unfolding p_def c by (rule interp_close)
    have "pdist (exact_point route k (d - 25)) (exact_point route seg' d) \<le> d - (d - 25)"
      using k on by (intro exact_lipschitz) simp_all
    then have "dist2d (fst (exact_point route k (d - 25))) (snd (exact_point route k (d - 25)))
                 (fst (exact_point route seg' d)) (snd (exact_point route seg' d)) \<le> SAMPLE_INTERVAL"
      by (simp add: pdist_def dist2d_def SAMPLE_INTERVAL_def)
    with kl close have g: "gap_ok (last out) p"
      unfolding gap_ok_def by blast
    have a: "successively gap_ok (out @ [p])"
      using "1.prems"(3,4) g by (simp add: successively_append_iff)
    have b: "\<exists>k. onseg route k (d + SAMPLE_INTERVAL - 25)
                 \<and> within_rounding (last (out @ [p])) (exact_point route k (d + SAMPLE_INTERVAL - 25))"
      using on close by (auto simp: SAMPLE_INTERVAL_def)
    have e: "c ! seg' \<le> d + SAMPLE_INTERVAL" using s2 by (simp add: SAMPLE_INTERVAL_def)
    have ne: "out @ [p] \<noteq> []" by simp
    have "successively gap_ok (sample_loop route c totalLen (d + SAMPLE_INTERVAL) seg' (out @ [p]))"
      unfolding p_def
      by (rule "1.IH"[OF True seg'_def c "1.prems"(2) ne[unfolded p_def] a[unfolded p_def] b[unfolded p_def] e s1])
    then show ?thesis using step by (simp add: p_def)
  qed
qed

lemma sampled_gap: "successively gap_ok (sampled route)"
proof (cases "2 \<le> length route")
  case False
  then have "length route = 0 \<or> length route = 1" by linarith
  then have "cumLen_of route = [0]"
    by (auto simp: cumLen_of_def)
  then have "sampled route = [route ! 0]"
    by (simp add: sampled_def Let_def sample_loop.simps[of route "[0]" 0] SAMPLE_INTERVAL_def)
  then show ?thesis by simp
next
  case True
  let ?c = "cumLen_of route"
  have len: "length ?c = length route" using True by (intro cumLen_of_props(1)) simp
  have c0: "?c ! 0 = 0" using True by (intro cumLen_of_props(2)) simp
  have c1: "0 \<le> ?c ! Suc 0" using cumLen_mono_Suc[of 0 route] True c0 by simp
  have on: "onseg route 0 0" using True c0 c1 by (simp add: onseg_def)
  have "exact_point route 0 0 = route ! 0"
    by (simp add: exact_point_def seg_t_def Let_def c0)
  then have start: "\<exists>k. onseg route k (SAMPLE_INTERVAL - 25)
      \<and> within_rounding (last [route ! 0]) (exact_point route k (SAMPLE_INTERVAL - 25))"
    using on by (auto simp: SAMPLE_INTERVAL_def within_rounding_refl intro!: exI[of _ 0])
  have "successively gap_ok (sample_loop route ?c (?c ! (length route - 1)) SAMPLE_INTERVAL 0 [route ! 0])"
    by (rule sample_loop_gap[OF refl refl _ _ start]) (use True c0 in \<open>simp_all add: SAMPLE_INTERVAL_def\<close>)
  then show ?thesis by (simp add: sampled_def Let_def len)
qed

lemma resample_split:
  "resample cleanRoute
     = sampled cleanRoute
       @ (if last_appended cleanRoute then [cleanRoute ! (length cleanRoute - 1)] else [])"
  by (simp add: resample_def last_appended_def Let_def)

lemma resample_gap_all:
  assumes "Suc i < length (resample route)"
    and "\<not> (last_appended route \<and> Suc i = length (resample route) - 1)"
  shows "gap_ok (resample route ! i) (resample route ! Suc i)"
proof -
  let ?S = "sampled route"
  have S: "successively gap_ok ?S" by (rule sampled_gap)
  have i: "Suc i < length ?S" using assms by (auto simp: resample_split split: if_splits)
  then have "resample route ! i = ?S ! i" "resample route ! Suc i = ?S ! Suc i"
    by (simp_all add: resample_split nth_append)
  then show ?thesis using successively_nth[OF S i] by simp
qed

lemma cumLen_line755: "cumLen_of [(0, 0), (151 / 2, 0)] = [0, 151 / 2]"
  by (simp add: cumLen_of_def cumLen_step_def hypot_axis_x)

lemma sampled_line755: "sampled [(0, 0), (151 / 2, 0)] = [(0, 0), (25, 0), (50, 0), (75, 0)]"
  unfolding sampled_def cumLen_line755 Let_def
  apply (simp add: SAMPLE_INTERVAL_def)
  apply (subst sample_loop.simps, subst advance.simps,
      simp add: interp_point_def seg_t_def SAMPLE_INTERVAL_def round1_def js_round_def)+
  done

lemma not_appended_line755: "\<not> last_appended [(0, 0), (151 / 2, 0)]"
  by (simp add: last_appended_def sampled_line755 hypot_axis_x)

lemma resample_line755:
  "resample [(0, 0), (151 / 2, 0)] = [(0, 0), (25, 0), (50, 0), (75, 0)]"
  by (simp add: resample_split sampled_line755 not_appended_line755)

text \<open>
  C1. The resampled route is the list of samples, followed by the original last point when
  that is more than 1 from the last sample. Every pair of consecutive points of it, other
  than the pair that ends at such an appended point, is within rounding (0.05 in each
  coordinate of each point) of two points of the cleaned polyline that are at most
  \<open>SAMPLE_INTERVAL = 25\<close> apart; so their distance is at most \<open>25 + 0.1 * sqrt 2\<close>. When
  nothing is appended this includes the last pair. Numbers are exact reals.
\<close>

theorem resample_max_gap:
  "resample cleanRoute
     = sampled cleanRoute
       @ (if last_appended cleanRoute then [cleanRoute ! (length cleanRoute - 1)] else [])
   \<and> (Suc i < length (resample cleanRoute)
        \<and> \<not> (last_appended cleanRoute \<and> Suc i = length (resample cleanRoute) - 1)
      \<longrightarrow> gap_ok (resample cleanRoute ! i) (resample cleanRoute ! Suc i)
          \<and> dist2d (fst (resample cleanRoute ! i)) (snd (resample cleanRoute ! i))
               (fst (resample cleanRoute ! Suc i)) (snd (resample cleanRoute ! Suc i))
             \<le> SAMPLE_INTERVAL + sqrt 2 / 10)"
  using resample_gap_all[of i cleanRoute] gap_ok_bound resample_split by blast

theorem resample_max_gap_witness:
  "\<not> last_appended [(0, 0), (151 / 2, 0)]
   \<and> resample [(0, 0), (151 / 2, 0)] = [(0, 0), (25, 0), (50, 0), (75, 0)]
   \<and> gap_ok (50, 0) (75, 0)
   \<and> dist2d 50 0 75 0 \<le> SAMPLE_INTERVAL + sqrt 2 / 10"
  using resample_max_gap[of "[(0, 0), (151 / 2, 0)]" 2]
  by (simp add: resample_line755 not_appended_line755)

section \<open>The run of \<open>main\<close> on a concrete route\<close>

text \<open>
  The stages of \<open>main\<close> are evaluated one by one on a route of 10 points on the equator
  that runs east, overshoots and comes back: after projection the points lie on \<open>z = 0\<close>
  at \<open>x = -250, ..., -190, 250, -100, -90\<close>. The dataset has no bus stop.
\<close>

lemma main_written:
  assumes "10 \<le> length routeLatLng"
    and "projectToGameCoords routeLatLng busStops = Some (gameRoute, gameStops)"
    and "route_stage gameRoute rawLabels = (finalRoute, labels)"
    and "stops_stage finalRoute gameStops labels = Ok stops"
    and "deduplicateStopNames Map.empty stops = named"
  shows "main now routeLatLng rawLabels busStops js srs
           = Written (writeRouteData now finalRoute named js srs)"
  using assms by (simp add: main_def)

lemma route_stage_eval:
  assumes "clean_loop (gameRoute, rawLabels) = (r1, l1)"
    and "dedupe_consecutive (r1, l1) = (cleanRoute, cleanLabels)"
    and "resample cleanRoute = sampledRoute"
    and "closeLoop sampledRoute = finalRoute"
    and "simplifiedStreetLabels cleanRoute cleanLabels sampledRoute = labels"
  shows "route_stage gameRoute rawLabels = (finalRoute, labels)"
  using assms by (simp add: route_stage_def cleanup_def Let_def)

definition back_latlon :: "latlon list" where
  "back_latlon = map (\<lambda>x. \<lparr>lat = 0, lon = x / 100000\<rparr>)
     [-250, -240, -230, -220, -210, -200, -190, 250, -100, -90]"

definition back_game :: "point list" where
  "back_game = [(-250, 0), (-240, 0), (-230, 0), (-220, 0), (-210, 0), (-200, 0), (-190, 0),
     (250, 0), (-100, 0), (-90, 0)]"

lemma list_min_eval: "list_min (x # xs) = fold min xs x" by (simp add: list_min_def)
lemma list_max_eval: "list_max (x # xs) = fold max xs x" by (simp add: list_max_def)

lemma project_eval:
  assumes "sum_list (map lat r) / real (length r) = lat0"
    and "sum_list (map lon r) / real (length r) = lng0"
    and "cos (lat0 * pi / 180) = cosLat"
    and "map (\<lambda>p. project lat0 lng0 cosLat (lat p) (lon p)) r = raw"
    and "list_min (map fst raw) = minX" and "list_max (map fst raw) = maxX"
    and "list_min (map snd raw) = minZ" and "list_max (map snd raw) = maxZ"
    and "max (maxX - minX) (maxZ - minZ) = maxSpan" and "maxSpan \<noteq> 0"
    and "map (\<lambda>(x, z). (round1 ((x - (minX + maxX) / 2) * (TARGET_SPAN / maxSpan)),
                       round1 ((z - (minZ + maxZ) / 2) * (TARGET_SPAN / maxSpan)))) raw = gameRoute"
  shows "projectToGameCoords r [] = Some (gameRoute, [])"
  using assms unfolding projectToGameCoords_def Let_def by simp

lemma back_lat0: "sum_list (map lat back_latlon) / real (length back_latlon) = 0"
  by (simp add: back_latlon_def)

lemma back_lng0: "sum_list (map lon back_latlon) / real (length back_latlon) = - 148 / 100000"
  by (simp add: back_latlon_def)

lemma back_raw: "map (\<lambda>p. project 0 (- 148 / 100000) 1 (lat p) (lon p)) back_latlon
   = map (\<lambda>x. ((x + 148) * 111320 / 100000, 0)) [-250, -240, -230, -220, -210, -200, -190, 250, -100, -90]"
  by (simp add: back_latlon_def project_def)


definition back_raw_route :: "point list" where
  "back_raw_route = map (\<lambda>x. ((x + 148) * 111320 / 100000, 0))
     [-250, -240, -230, -220, -210, -200, -190, 250, -100, -90]"

lemma back_project: "projectToGameCoords back_latlon [] = Some (back_game, [])"
proof (rule project_eval)
  show "sum_list (map lat back_latlon) / real (length back_latlon) = 0" by (rule back_lat0)
  show "sum_list (map lon back_latlon) / real (length back_latlon) = - 148 / 100000"
    by (rule back_lng0)
  show "cos (0 * pi / 180) = 1" by simp
  show "map (\<lambda>p. project 0 (- 148 / 100000) 1 (lat p) (lon p)) back_latlon = back_raw_route"
    unfolding back_raw_route_def by (rule back_raw)
  show "list_min (map fst back_raw_route) = (- 102) * 111320 / 100000"
    by (simp add: back_raw_route_def list_min_eval)
  show "list_max (map fst back_raw_route) = 398 * 111320 / 100000"
    by (simp add: back_raw_route_def list_max_eval)
  show "list_min (map snd back_raw_route) = 0"
    by (simp add: back_raw_route_def list_min_eval)
  show "list_max (map snd back_raw_route) = 0"
    by (simp add: back_raw_route_def list_max_eval)
  show "max (398 * 111320 / 100000 - (- 102) * 111320 / 100000) (0 - 0) = (500 * 111320 / 100000 :: real)"
    by simp
  show "(500 * 111320 / 100000 :: real) \<noteq> 0" by simp
  show "map (\<lambda>(x, z). (round1 ((x - ((- 102) * 111320 / 100000 + 398 * 111320 / 100000) / 2) * (TARGET_SPAN / (500 * 111320 / 100000))),
                       round1 ((z - (0 + 0) / 2) * (TARGET_SPAN / (500 * 111320 / 100000))))) back_raw_route = back_game"
    by (simp add: back_raw_route_def back_game_def TARGET_SPAN_def round1_def js_round_def)
qed


definition back_labels :: "string list" where
  "back_labels = replicate 10 ''Whitehall''"

definition back_clean :: "point list" where
  "back_clean = [(-250, 0), (-240, 0), (-230, 0), (-220, 0), (-210, 0), (-200, 0), (-190, 0), (-90, 0)]"

definition back_sampled :: "point list" where
  "back_sampled = [(-250, 0), (-225, 0), (-200, 0), (-175, 0), (-150, 0), (-125, 0), (-100, 0), (-90, 0)]"

definition back_final :: "point list" where
  "back_final = [(-250, 0), (-225, 0), (-200, 0), (-175, 0), (-150, 0), (-125, 0), (-100, 0), (-90, 0), (-250, 0)]"

lemma back_toRemove1: "toRemove back_game = [7, 8]"
  by (simp add: toRemove_def back_game_def backtrack_at_sq seg_dot_def upt_conv_Cons)

lemma back_drop1: "drop_indices [7, 8] back_game = back_clean"
  by (simp add: drop_indices_def back_game_def back_clean_def upt_conv_Cons)

lemma back_drop1_labels: "drop_indices [7, 8] back_labels = replicate 8 ''Whitehall''"
  unfolding back_labels_def by code_simp

lemma back_toRemove2: "toRemove back_clean = []"
  by (simp add: toRemove_def back_clean_def backtrack_at_sq seg_dot_def upt_conv_Cons)

lemma back_clean_loop:
  "clean_loop (back_game, back_labels) = (back_clean, replicate 8 ''Whitehall'')"
  by (simp add: clean_loop.simps[of back_game] clean_loop.simps[of back_clean]
      back_toRemove1 back_toRemove2 back_drop1 back_drop1_labels)

lemma back_dedupe:
  "dedupe_consecutive (back_clean, replicate 8 ''Whitehall'')
     = (back_clean, replicate 8 (Some ''Whitehall''))"
  by (simp add: dedupe_consecutive_def dedupe_step_sq back_clean_def upt_conv_Cons js_nth_def
      numeral_eq_Suc)

lemma back_cumLen: "cumLen_of back_clean = [0, 10, 20, 30, 40, 50, 60, 160]"
  by (simp add: cumLen_of_def cumLen_step_def back_clean_def hypot_axis_x upt_conv_Cons)

lemma back_sampled_eval:
  "sampled back_clean = [(-250, 0), (-225, 0), (-200, 0), (-175, 0), (-150, 0), (-125, 0), (-100, 0)]"
  unfolding sampled_def back_cumLen Let_def
  apply (simp add: SAMPLE_INTERVAL_def back_clean_def)
  apply (subst sample_loop.simps, (subst advance.simps, simp)+,
      simp add: interp_point_def seg_t_def SAMPLE_INTERVAL_def round1_def js_round_def)+
  apply (subst sample_loop.simps, simp)
  done

lemma back_resample: "resample back_clean = back_sampled"
  unfolding resample_def back_sampled_eval
  by (simp add: Let_def back_clean_def back_sampled_def hypot_axis_x)

lemma back_closeLoop: "closeLoop back_sampled = back_final"
  by (simp add: closeLoop_def Let_def back_sampled_def back_final_def hypot_axis_x)

lemma back_simplified:
  "simplifiedStreetLabels back_clean (replicate 8 (Some ''Whitehall'')) back_sampled
     = replicate 9 ''Whitehall''"
  by (simp add: simplifiedStreetLabels_def nearest_label_def back_clean_def back_sampled_def
      geo_eval Let_def js_nth_def numeral_eq_Suc)

lemma back_route_stage:
  "route_stage back_game back_labels = (back_final, replicate 9 ''Whitehall'')"
  by (rule route_stage_eval[OF back_clean_loop back_dedupe back_resample back_closeLoop
        back_simplified])


definition back_stops :: "stop list" where
  "back_stops = map (\<lambda>i. \<lparr>s_idx = i, s_name = ''Whitehall''\<rparr>) [0, 2, 4, 6]"

definition back_named :: "stop list" where
  "back_named = [\<lparr>s_idx = 0, s_name = ''Whitehall''\<rparr>, \<lparr>s_idx = 2, s_name = ''Whitehall North''\<rparr>,
     \<lparr>s_idx = 4, s_name = ''Whitehall South''\<rparr>, \<lparr>s_idx = 6, s_name = ''Whitehall East''\<rparr>]"

lemma back_stops_stage: "stops_stage back_final [] (replicate 9 ''Whitehall'') = Ok back_stops"
proof (rule stops_stage_synth)
  show "matchBusStops back_final [] STOP_MATCH_RADIUS = []"
    by (simp add: matchBusStops_def match_candidates_def dedupe_candidates_def select_spaced_def)
  show "assignStreetNames (map (\<lambda>c. (c_idx c, c_name c)) []) (replicate 9 ''Whitehall'') = []"
    by (simp add: assignStreetNames_def)
  show "length ([] :: stop list) < 6" by simp
  show "synthesize (length back_final) =
     Ok [(0, Some ''Stop 0''), (1, Some ''Stop 1''), (2, Some ''Stop 2''), (3, Some ''Stop 3''),
         (4, Some ''Stop 4''), (5, Some ''Stop 5''), (6, Some ''Stop 6''), (7, Some ''Stop 7'')]"
    unfolding back_final_def by code_simp
  show "assignStreetNames
     [(0, Some ''Stop 0''), (1, Some ''Stop 1''), (2, Some ''Stop 2''), (3, Some ''Stop 3''),
      (4, Some ''Stop 4''), (5, Some ''Stop 5''), (6, Some ''Stop 6''), (7, Some ''Stop 7'')]
      (replicate 9 ''Whitehall'')
     = map (\<lambda>i. \<lparr>s_idx = i, s_name = ''Whitehall''\<rparr>) [0, 1, 2, 3, 4, 5, 6, 7]"
    by code_simp
  show "sort_key s_idx (merge_synthetic []
          (map (\<lambda>i. \<lparr>s_idx = i, s_name = ''Whitehall''\<rparr>) [0, 1, 2, 3, 4, 5, 6, 7]))
     = \<lparr>s_idx = 0, s_name = ''Whitehall''\<rparr>
         # map (\<lambda>i. \<lparr>s_idx = i, s_name = ''Whitehall''\<rparr>) [1, 2, 3, 4, 5, 6, 7]"
    by code_simp
  show "take 10 (\<lparr>s_idx = 0, s_name = ''Whitehall''\<rparr>
          # space_after back_final s_idx \<lparr>s_idx = 0, s_name = ''Whitehall''\<rparr>
              (map (\<lambda>i. \<lparr>s_idx = i, s_name = ''Whitehall''\<rparr>) [1, 2, 3, 4, 5, 6, 7])) = back_stops"
    by (simp add: back_final_def back_stops_def geo_eval)
qed

lemma back_dedup_names: "deduplicateStopNames Map.empty back_stops = back_named"
  unfolding back_stops_def back_named_def by code_simp

lemma back_main:
  "main now back_latlon back_labels [] js srs = Written (writeRouteData now back_final back_named js srs)"
proof (rule main_written)
  show "10 \<le> length back_latlon" by (simp add: back_latlon_def)
  show "projectToGameCoords back_latlon [] = Some (back_game, [])" by (rule back_project)
  show "route_stage back_game back_labels = (back_final, replicate 9 ''Whitehall'')"
    by (rule back_route_stage)
  show "stops_stage back_final [] (replicate 9 ''Whitehall'') = Ok back_stops"
    by (rule back_stops_stage)
  show "deduplicateStopNames Map.empty back_stops = back_named" by (rule back_dedup_names)
qed





section \<open>The claims about the run as a whole\<close>

lemma stops_stage_nonempty:
  assumes "stops_stage route gameStops labels = Ok stops"
  shows "stops \<noteq> []"
proof (cases "length (assignStreetNames (map (\<lambda>c. (c_idx c, c_name c))
          (matchBusStops route gameStops STOP_MATCH_RADIUS)) labels) < 6")
  case True
  with assms show ?thesis
    by (auto simp: stops_stage_def Let_def split: result.splits list.splits)
next
  case False
  with assms show ?thesis by (auto simp: stops_stage_def Let_def)
qed

text \<open>
  C7, as the script does it. A stitched route of fewer than 10 points ends the run with
  exit code 1 and no file. The number of stops is not checked anywhere: whenever step 7
  hands on a stop list (it is never empty then), the file is written with it. A file is
  only ever written for a route of at least 10 points.
\<close>

theorem main_fatal_conditions:
  "(length routeLatLng < 10 \<longrightarrow> main now routeLatLng rawLabels busStops js srs = Exit 1)
   \<and> (10 \<le> length routeLatLng
        \<and> projectToGameCoords routeLatLng busStops = Some (gameRoute, gameStops)
        \<and> route_stage gameRoute rawLabels = (finalRoute, labels)
        \<and> stops_stage finalRoute gameStops labels = Ok stops
      \<longrightarrow> stops \<noteq> []
          \<and> main now routeLatLng rawLabels busStops js srs
              = Written (writeRouteData now finalRoute (deduplicateStopNames Map.empty stops) js srs))
   \<and> (main now routeLatLng rawLabels busStops js srs = Written txt \<longrightarrow> 10 \<le> length routeLatLng)"
proof (intro conjI impI)
  assume "length routeLatLng < 10"
  then show "main now routeLatLng rawLabels busStops js srs = Exit 1" by (simp add: main_def)
next
  assume a: "10 \<le> length routeLatLng
        \<and> projectToGameCoords routeLatLng busStops = Some (gameRoute, gameStops)
        \<and> route_stage gameRoute rawLabels = (finalRoute, labels)
        \<and> stops_stage finalRoute gameStops labels = Ok stops"
  then show "stops \<noteq> []" using stops_stage_nonempty by blast
  from a have len: "10 \<le> length routeLatLng"
    and p: "projectToGameCoords routeLatLng busStops = Some (gameRoute, gameStops)"
    and r: "route_stage gameRoute rawLabels = (finalRoute, labels)"
    and st: "stops_stage finalRoute gameStops labels = Ok stops"
    by simp_all
  show "main now routeLatLng rawLabels busStops js srs
      = Written (writeRouteData now finalRoute (deduplicateStopNames Map.empty stops) js srs)"
    by (rule main_written[OF len p r st refl])
next
  assume "main now routeLatLng rawLabels busStops js srs = Written txt"
  then show "10 \<le> length routeLatLng" by (auto simp: main_def split: if_splits)
qed

theorem main_fatal_conditions_witness:
  "main ''2025-01-01T00:00:00.000Z'' [] [] [] [] [] = Exit 1
   \<and> back_stops \<noteq> []
   \<and> main ''2025-01-01T00:00:00.000Z'' back_latlon back_labels [] [] []
       = Written (writeRouteData ''2025-01-01T00:00:00.000Z'' back_final
                   (deduplicateStopNames Map.empty back_stops) [] [])"
proof -
  have len: "10 \<le> length back_latlon" by (simp add: back_latlon_def)
  from main_fatal_conditions[of "[]" "''2025-01-01T00:00:00.000Z''" "[]" "[]" "[]" "[]"]
  have 1: "main ''2025-01-01T00:00:00.000Z'' [] [] [] [] [] = Exit 1" by simp
  from main_fatal_conditions[of back_latlon "''2025-01-01T00:00:00.000Z''" back_labels "[]" "[]" "[]"
      back_game "[]" back_final "replicate 9 ''Whitehall''" back_stops]
    len back_project back_route_stage back_stops_stage
  have 2: "back_stops \<noteq> []
   \<and> main ''2025-01-01T00:00:00.000Z'' back_latlon back_labels [] [] []
       = Written (writeRouteData ''2025-01-01T00:00:00.000Z'' back_final
                   (deduplicateStopNames Map.empty back_stops) [] [])"
    by blast
  from 1 2 show ?thesis by blast
qed

text \<open>
  On the route above, matching finds no stop, synthesis and spacing leave 4 stops (fewer
  than the 6 below which the script calls the stops too few), and the file is written.
\<close>

theorem few_stops_written_counterexample:
  "stops_stage back_final [] (replicate 9 ''Whitehall'') = Ok back_stops
   \<and> length back_stops = 4
   \<and> main ''2025-01-01T00:00:00.000Z'' back_latlon back_labels [] [] []
       = Written (writeRouteData ''2025-01-01T00:00:00.000Z'' back_final back_named [] [])"
  using back_stops_stage back_main by (simp add: back_stops_def)




section \<open>Double addition: rounding is monotone\<close>

lemma rne_of_int [simp]: "rne (of_int n) = n"
  by (simp add: rne_def)

lemma rne_bounds: "\<lfloor>x\<rfloor> \<le> rne x" "rne x \<le> \<lfloor>x\<rfloor> + 1"
  by (simp_all add: rne_def Let_def)

lemma rne_mono:
  assumes "x \<le> y"
  shows "rne x \<le> rne y"
proof (cases "\<lfloor>x\<rfloor> = \<lfloor>y\<rfloor>")
  case True
  have "x - of_int \<lfloor>x\<rfloor> \<le> y - of_int \<lfloor>y\<rfloor>" using assms True by simp
  then show ?thesis using True by (auto simp: rne_def Let_def)
next
  case False
  have "\<lfloor>x\<rfloor> \<le> \<lfloor>y\<rfloor>" using assms by (rule floor_mono)
  with False have "\<lfloor>x\<rfloor> + 1 \<le> \<lfloor>y\<rfloor>" by simp
  with rne_bounds(2)[of x] rne_bounds(1)[of y] show ?thesis by linarith
qed

lemma ulp_pos: "0 < ulp x"
  by (simp add: ulp_def)

lemma expo_ge: "- 1022 \<le> expo x"
  by (simp add: expo_def)

lemma expo_mono:
  assumes "0 < x" "x \<le> y"
  shows "expo x \<le> expo y"
proof -
  have "log 2 x \<le> log 2 y" using assms by simp
  then have "\<lfloor>log 2 x\<rfloor> \<le> \<lfloor>log 2 y\<rfloor>" by (rule floor_mono)
  then show ?thesis using assms by (simp add: expo_def)
qed

lemma below_next_binade:
  assumes "0 < x"
  shows "x < 2 powr of_int (expo x + 1)"
proof -
  have "log 2 x < of_int (\<lfloor>log 2 x\<rfloor> + 1)" by linarith
  also have "\<dots> \<le> of_int (expo x + 1)" using assms by (simp add: expo_def)
  finally have "log 2 x < of_int (expo x + 1)" .
  then show ?thesis using assms by (simp add: log_less_iff)
qed

lemma above_binade:
  assumes "0 < x" and "- 1022 < expo x"
  shows "2 powr of_int (expo x) \<le> x"
proof -
  from assms have "expo x = \<lfloor>log 2 x\<rfloor>" by (simp add: expo_def max_def split: if_splits)
  then have "of_int (expo x) \<le> log 2 x" by simp
  then show ?thesis using assms(1) by (simp add: le_log_iff)
qed

lemma ulp_scale: "ulp x * 2 ^ 53 = 2 powr of_int (expo x + 1)"
proof -
  have "of_int (expo x + 1) = of_int (expo x - 52) + (53 :: real)" by simp
  then have "2 powr of_int (expo x + 1) = 2 powr of_int (expo x - 52) * 2 powr (53 :: real)"
    by (simp only: powr_add)
  then show ?thesis by (simp add: ulp_def)
qed

lemma ulp_scale52: "ulp x * 2 ^ 52 = 2 powr of_int (expo x)"
proof -
  have "of_int (expo x) = of_int (expo x - 52) + (52 :: real)" by simp
  then have "2 powr of_int (expo x) = 2 powr of_int (expo x - 52) * 2 powr (52 :: real)"
    by (simp only: powr_add)
  then show ?thesis by (simp add: ulp_def)
qed

lemma quot_less:
  assumes "0 < x"
  shows "x / ulp x < 2 ^ 53"
proof -
  have "x < ulp x * 2 ^ 53" using below_next_binade[OF assms] by (simp only: ulp_scale)
  then show ?thesis using ulp_pos[of x] by (simp add: field_simps)
qed

lemma quot_ge:
  assumes "0 < x" and "- 1022 < expo x"
  shows "2 ^ 52 \<le> x / ulp x"
proof -
  have "ulp x * 2 ^ 52 \<le> x" using above_binade[OF assms] by (simp only: ulp_scale52)
  then show ?thesis using ulp_pos[of x] by (simp add: field_simps)
qed

lemma mant_le:
  assumes "0 < x"
  shows "rne (x / ulp x) \<le> 2 ^ 53"
proof -
  have "rne (x / ulp x) \<le> rne (of_int (2 ^ 53))"
    using quot_less[OF assms] by (intro rne_mono) simp
  then show ?thesis by (simp only: rne_of_int)
qed

lemma mant_ge:
  assumes "0 < x" and "- 1022 < expo x"
  shows "2 ^ 52 \<le> rne (x / ulp x)"
proof -
  have "rne (of_int (2 ^ 52)) \<le> rne (x / ulp x)"
    using quot_ge[OF assms] by (intro rne_mono) simp
  then show ?thesis by (simp only: rne_of_int)
qed

lemma mant_nonneg:
  assumes "0 \<le> x"
  shows "0 \<le> rne (x / ulp x)"
proof -
  have "rne (of_int 0) \<le> rne (x / ulp x)"
    using assms ulp_pos[of x] by (intro rne_mono) simp
  then show ?thesis by (simp only: rne_of_int)
qed

lemma fl64_nonneg: "0 \<le> x \<Longrightarrow> 0 \<le> fl64 x"
  using mant_nonneg[of x] ulp_pos[of x] by (simp add: fl64_def)

lemma fl64_le_next:
  assumes "0 < x"
  shows "fl64 x \<le> 2 powr of_int (expo x + 1)"
proof -
  have "(of_int (rne (x / ulp x)) :: real) \<le> of_int (2 ^ 53)"
    using mant_le[OF assms] by (simp only: of_int_le_iff)
  then have "of_int (rne (x / ulp x)) * ulp x \<le> 2 ^ 53 * ulp x"
    using ulp_pos[of x] by (intro mult_right_mono) simp_all
  then show ?thesis using assms ulp_scale[of x] by (simp add: fl64_def mult.commute)
qed

lemma fl64_ge_binade:
  assumes "0 < x" and "- 1022 < expo x"
  shows "2 powr of_int (expo x) \<le> fl64 x"
proof -
  have "(of_int (2 ^ 52) :: real) \<le> of_int (rne (x / ulp x))"
    using mant_ge[OF assms] by (simp only: of_int_le_iff)
  then have "2 ^ 52 * ulp x \<le> of_int (rne (x / ulp x)) * ulp x"
    using ulp_pos[of x] by (intro mult_right_mono) simp_all
  then show ?thesis using assms ulp_scale52[of x] by (simp add: fl64_def mult.commute)
qed

lemma fl64_mono:
  assumes "0 \<le> x" and "x \<le> y"
  shows "fl64 x \<le> fl64 y"
proof (cases "x = 0")
  case True
  then show ?thesis using fl64_nonneg[of y] assms by (simp add: fl64_def)
next
  case False
  with assms have x: "0 < x" and y: "0 < y" by simp_all
  have e: "expo x \<le> expo y" using x assms(2) by (rule expo_mono)
  show ?thesis
  proof (cases "expo x = expo y")
    case True
    then have u: "ulp x = ulp y" by (simp add: ulp_def)
    have "x / ulp y \<le> y / ulp y" using assms(2) ulp_pos[of y] by (simp add: divide_right_mono)
    then have "rne (x / ulp y) \<le> rne (y / ulp y)" by (rule rne_mono)
    then have "(of_int (rne (x / ulp y)) :: real) * ulp y \<le> of_int (rne (y / ulp y)) * ulp y"
      using ulp_pos[of y] by (intro mult_right_mono) simp_all
    then show ?thesis using x y u by (simp add: fl64_def)
  next
    case False
    with e have lt: "expo x + 1 \<le> expo y" by simp
    then have "- 1022 < expo y" using expo_ge[of x] by linarith
    then have "2 powr of_int (expo y) \<le> fl64 y" using y by (intro fl64_ge_binade)
    moreover have "fl64 x \<le> 2 powr of_int (expo x + 1)" using x by (rule fl64_le_next)
    moreover have "(2::real) powr of_int (expo x + 1) \<le> 2 powr of_int (expo y)"
      using lt by (intro powr_mono) simp_all
    ultimately show ?thesis by linarith
  qed
qed

lemma expo_eq:
  assumes "0 < z" and "- 1022 \<le> e" and "z < 2 powr of_int (e + 1)"
    and "- 1022 < e \<Longrightarrow> 2 powr of_int e \<le> z"
  shows "expo z = e"
proof (cases "- 1022 < e")
  case True
  then have "2 powr of_int e \<le> z" by (rule assms(4))
  with assms(3) have "\<lfloor>log 2 z\<rfloor> = e"
    using assms(1) by (simp add: floor_log_eq_powr_iff)
  then show ?thesis using assms(1,2) by (simp add: expo_def)
next
  case False
  with assms(2) have e: "e = - 1022" by simp
  have "log 2 z < of_int (e + 1)" using assms(1,3) by (simp add: log_less_iff)
  then have "\<lfloor>log 2 z\<rfloor> < e + 1" by (subst floor_less_iff)
  then show ?thesis using assms(1) e by (simp add: expo_def)
qed

lemma fl64_at:
  assumes "0 < z" and "- 1022 \<le> e" and "z < 2 powr of_int (e + 1)"
    and "- 1022 < e \<Longrightarrow> 2 powr of_int e \<le> z"
  shows "fl64 z = of_int (rne (z / 2 powr of_int (e - 52))) * 2 powr of_int (e - 52)"
  using assms(1) expo_eq[OF assms] by (simp add: fl64_def ulp_def)

lemma fl64_idem:
  assumes "0 \<le> x"
  shows "fl64 (fl64 x) = fl64 x"
proof (cases "x = 0")
  case True
  then show ?thesis by (simp add: fl64_def)
next
  case False
  with assms have x: "0 < x" by simp
  let ?e = "expo x"
  let ?q = "ulp x"
  let ?m = "rne (x / ?q)"
  have z: "fl64 x = of_int ?m * ?q" using x by (simp add: fl64_def)
  have q: "0 < ?q" by (rule ulp_pos)
  have m0: "0 \<le> ?m" using assms by (rule mant_nonneg)
  have m1: "?m \<le> 2 ^ 53" using x by (rule mant_le)
  show ?thesis
  proof (cases "?m = 0")
    case True
    then show ?thesis by (simp add: z fl64_def)
  next
    case mpos: False
    with m0 have mp: "0 < ?m" by simp
    then have zp: "0 < fl64 x" using q by (simp add: z)
    show ?thesis
    proof (cases "?m = 2 ^ 53")
      case True
      then have zz: "fl64 x = 2 powr of_int (?e + 1)"
        using ulp_scale[of x] by (simp add: z mult.commute)
      have e1: "expo (fl64 x) = ?e + 1"
      proof (rule expo_eq[OF zp])
        show "- 1022 \<le> ?e + 1" using expo_ge[of x] by simp
        show "fl64 x < 2 powr of_int (?e + 1 + 1)"
          unfolding zz by (intro powr_less_mono) simp_all
        show "2 powr of_int (?e + 1) \<le> fl64 x" by (simp add: zz)
      qed
      have "of_int (?e + 1) = of_int (?e + 1 - 52) + (52 :: real)" by simp
      then have "(2::real) powr of_int (?e + 1) = 2 powr of_int (?e + 1 - 52) * 2 powr (52 :: real)"
        by (simp only: powr_add)
      then have sc: "(2::real) powr of_int (?e + 1) = 2 powr of_int (?e + 1 - 52) * 2 ^ 52" by simp
      have u: "ulp (fl64 x) = 2 powr of_int (?e + 1 - 52)" by (simp only: ulp_def e1)
      have r: "2 powr of_int (?e + 1) / 2 powr of_int (?e + 1 - 52) = (of_int (2 ^ 52) :: real)"
        by (subst sc) simp
      have "fl64 x / ulp (fl64 x) = fl64 x / 2 powr of_int (?e + 1 - 52)" by (simp only: u)
      also have "\<dots> = 2 powr of_int (?e + 1) / 2 powr of_int (?e + 1 - 52)" by (simp only: zz)
      finally have "fl64 x / ulp (fl64 x) = of_int (2 ^ 52)" by (simp only: r)
      then have "rne (fl64 x / ulp (fl64 x)) = 2 ^ 52" by (simp only: rne_of_int)
      then have "fl64 (fl64 x) = 2 ^ 52 * ulp (fl64 x)" using zp by (simp add: fl64_def)
      also have "\<dots> = 2 powr of_int (?e + 1)" by (simp only: u sc) simp
      finally show ?thesis by (simp only: zz)
    next
      case False
      with m1 have mlt: "?m < 2 ^ 53" by simp
      have e1: "expo (fl64 x) = ?e"
      proof (rule expo_eq[OF zp])
        show "- 1022 \<le> ?e" by (rule expo_ge)
        have "(of_int ?m :: real) < of_int (2 ^ 53)" using mlt by (simp only: of_int_less_iff)
        then have "of_int ?m * ?q < 2 ^ 53 * ?q" using q by (intro mult_strict_right_mono) simp_all
        then show "fl64 x < 2 powr of_int (?e + 1)"
          using ulp_scale[of x] by (simp add: z mult.commute)
        assume "- 1022 < ?e"
        then show "2 powr of_int ?e \<le> fl64 x" using x by (intro fl64_ge_binade)
      qed
      then have u: "ulp (fl64 x) = ?q" by (simp add: ulp_def)
      have "fl64 x / ?q = of_int ?m" using q by (simp add: z)
      then have r: "rne (fl64 x / ?q) = ?m" by (simp only: rne_of_int)
      have "fl64 (fl64 x) = of_int (rne (fl64 x / ulp (fl64 x))) * ulp (fl64 x)"
        using zp by (simp add: fl64_def[of "fl64 x"])
      also have "\<dots> = of_int ?m * ?q" by (simp only: u r)
      finally show ?thesis by (simp only: z)
    qed
  qed
qed

lemma fl64_Infinity: "fl64 js_Infinity = js_Infinity"
proof -
  have p: "(2::real) powr of_int 1024 = 2 ^ 1024" "(2::real) powr of_int (1024 + 1) = 2 ^ 1025"
    "(2::real) powr of_int (1024 - 52) = 2 ^ 972"
    by (simp_all add: powr_int)
  have "fl64 (2 ^ 1024) = of_int (rne (2 ^ 1024 / 2 powr of_int (1024 - 52))) * 2 powr of_int (1024 - 52)"
    by (rule fl64_at) (simp_all only: p, simp_all)
  also have "(2::real) ^ 1024 / 2 powr of_int (1024 - 52) = of_int (2 ^ 52)"
    by (simp only: p) simp
  finally show ?thesis by (simp only: rne_of_int p js_Infinity_def) simp
qed

lemma js_add_mono:
  assumes "0 \<le> a" and "a \<le> b" and "0 \<le> w"
  shows "js_add a w \<le> js_add b w"
proof -
  have "fl64 (a + w) \<le> fl64 (b + w)" using assms by (intro fl64_mono) simp_all
  then show ?thesis by (simp add: js_add_def min_def max_def)
qed

lemma js_Infinity_pos: "0 < js_Infinity"
  by (simp add: js_Infinity_def)

lemma js_add_double:
  assumes "0 \<le> a" and "0 \<le> w"
  shows "nonneg_double (js_add a w)"
proof -
  have n: "0 \<le> fl64 (a + w)" using assms by (intro fl64_nonneg) simp
  show ?thesis
  proof (cases "fl64 (a + w) \<le> js_Infinity")
    case True
    with n have "js_add a w = fl64 (a + w)" using js_Infinity_pos by (simp add: js_add_def)
    with True n show ?thesis using assms by (simp add: nonneg_double_def fl64_idem)
  next
    case False
    then have "js_add a w = js_Infinity" using js_Infinity_pos by (simp add: js_add_def)
    then show ?thesis using js_Infinity_pos by (simp add: nonneg_double_def fl64_Infinity)
  qed
qed

lemma js_add_infl:
  assumes "nonneg_double a" and "0 \<le> w"
  shows "a \<le> js_add a w"
proof -
  from assms(1) have a: "0 \<le> a" "a \<le> js_Infinity" "fl64 a = a" by (simp_all add: nonneg_double_def)
  have "fl64 a \<le> fl64 (a + w)" using a(1) assms(2) by (intro fl64_mono) simp_all
  then have "a \<le> fl64 (a + w)" by (simp add: a(3))
  with a(1,2) show ?thesis using js_Infinity_pos by (simp add: js_add_def)
qed

lemma js_add_le_Infinity: "js_add a w \<le> js_Infinity"
  using js_Infinity_pos by (simp add: js_add_def)

lemma nonneg_double_0: "nonneg_double 0"
  using js_Infinity_pos by (simp add: nonneg_double_def fl64_def)

lemma fl64_one: "fl64 1 = 1"
proof -
  have "fl64 1 = of_int (rne (1 / 2 powr of_int (0 - 52))) * 2 powr of_int (0 - 52)"
    by (rule fl64_at) simp_all
  also have "1 / 2 powr of_int (0 - 52) = (of_int (2 ^ 52) :: real)"
    by (simp add: powr_neg_numeral)
  finally show ?thesis by (simp only: rne_of_int) (simp add: powr_neg_numeral)
qed

lemma fl64_tiny: "fl64 (1 / 2 ^ 53) = 1 / 2 ^ 53"
proof -
  have "fl64 (1 / 2 ^ 53)
          = of_int (rne (1 / 2 ^ 53 / 2 powr of_int (- 53 - 52))) * 2 powr of_int (- 53 - 52)"
    by (rule fl64_at) (simp_all add: powr_neg_numeral)
  also have "1 / 2 ^ 53 / 2 powr of_int (- 53 - 52) = (of_int (2 ^ 52) :: real)"
    by (simp add: powr_neg_numeral)
  finally show ?thesis by (simp only: rne_of_int) (simp add: powr_neg_numeral)
qed

lemma fl64_absorb: "fl64 (1 / 2 ^ 53 + 1) = 1"
proof -
  have "fl64 (1 / 2 ^ 53 + 1)
          = of_int (rne ((1 / 2 ^ 53 + 1) / 2 powr of_int (0 - 52))) * 2 powr of_int (0 - 52)"
    by (rule fl64_at) simp_all
  also have "(1 / 2 ^ 53 + 1) / 2 powr of_int (0 - 52) = (of_int (2 ^ 52) + 1 / 2 :: real)"
    by (simp add: powr_neg_numeral)
  also have "rne (of_int (2 ^ 52) + 1 / 2) = 2 ^ 52"
    by (simp add: rne_def Let_def)
  finally show ?thesis by (simp add: powr_neg_numeral)
qed

lemma js_Infinity_ge: "2 \<le> js_Infinity"
proof -
  have "(2::real) ^ 1 \<le> 2 ^ 1024" by (rule power_increasing) simp_all
  then show ?thesis by (simp add: js_Infinity_def)
qed

lemma js_add_small:
  assumes "fl64 (a + b) = r" and "0 \<le> r" and "r \<le> 2"
  shows "js_add a b = r"
  using assms js_Infinity_ge by (simp add: js_add_def min_def max_def)

lemma js_add_evals:
  "js_add 0 (1 / 9007199254740992) = 1 / 9007199254740992"
  "js_add 0 1 = 1"
  "js_add (1 / 9007199254740992) 1 = 1"
  "js_add 1 0 = 1"
  using fl64_one fl64_tiny fl64_absorb by (simp_all add: js_add_small)

lemma double_evals: "nonneg_double 0" "nonneg_double 1" "nonneg_double (1 / 9007199254740992)"
  using fl64_one fl64_tiny js_Infinity_ge by (simp_all add: nonneg_double_def fl64_def[of 0])

section \<open>The shortest-path search: paths, termination and minimality\<close>

text \<open>
  A walk from \<open>s\<close> along edges of the adjacency map, with the weight accumulated by double
  additions from \<open>s\<close> on; \<open>walk_on\<close> also records the nodes passed.
\<close>

inductive walk :: "adjacency \<Rightarrow> nat \<Rightarrow> nat \<Rightarrow> real \<Rightarrow> bool" for adj s where
  walk_start: "walk adj s s 0"
| walk_step: "walk adj s u d \<Longrightarrow> e \<in> set (edges_of adj u) \<Longrightarrow>
     walk adj s (e_to e) (js_add d (e_dist e))"

definition double_weights :: "adjacency \<Rightarrow> bool" where
  "double_weights adj = (\<forall>u. \<forall>e \<in> set (edges_of adj u). nonneg_double (e_dist e))"

definition before :: "nat list \<Rightarrow> nat \<Rightarrow> nat \<Rightarrow> bool" where
  "before vs u v = (\<exists>vs1 vs2. vs = vs1 @ v # vs2 \<and> u \<in> set vs1)"

definition P_walk :: "adjacency \<Rightarrow> nat \<Rightarrow> dstate \<Rightarrow> bool" where
  "P_walk adj s st = (d_dist st s = Some 0 \<and> (\<forall>v d. d_dist st v = Some d \<longrightarrow> walk adj s v d))"

definition P_pq :: "dstate \<Rightarrow> bool" where
  "P_pq st =
     ((\<forall>v d. (v, d) \<in> set (d_pq st) \<longrightarrow> (\<exists>dv. d_dist st v = Some dv \<and> dv \<le> d))
    \<and> (\<forall>v d. d_dist st v = Some d \<longrightarrow> v \<notin> set (d_visited st) \<longrightarrow> (v, d) \<in> set (d_pq st))
    \<and> (\<forall>v \<in> set (d_visited st). d_dist st v \<noteq> None))"

definition P_first :: "nat \<Rightarrow> dstate \<Rightarrow> bool" where
  "P_first s st =
     (distinct (d_visited st)
    \<and> (d_visited st = [] \<longrightarrow> d_prev st = Map.empty \<and> (\<forall>v. d_dist st v \<noteq> None \<longrightarrow> v = s))
    \<and> (d_visited st \<noteq> [] \<longrightarrow> hd (d_visited st) = s))"

definition P_prev :: "adjacency \<Rightarrow> nat \<Rightarrow> dstate \<Rightarrow> bool" where
  "P_prev adj s st =
     ((\<forall>v u. d_prev st v = Some u \<longrightarrow>
         v \<noteq> s \<and> u \<in> set (d_visited st)
         \<and> (v \<in> set (d_visited st) \<longrightarrow> before (d_visited st) u v)
         \<and> (\<exists>du e. d_dist st u = Some du \<and> e \<in> set (edges_of adj u) \<and> e_to e = v
                \<and> d_dist st v = Some (js_add du (e_dist e))))
    \<and> (\<forall>v. d_dist st v \<noteq> None \<longrightarrow> v = s \<or> d_prev st v \<noteq> None))"

definition struct_inv :: "adjacency \<Rightarrow> nat \<Rightarrow> dstate \<Rightarrow> bool" where
  "struct_inv adj s st = (P_walk adj s st \<and> P_pq st \<and> P_first s st \<and> P_prev adj s st)"

definition P_opt :: "adjacency \<Rightarrow> nat \<Rightarrow> dstate \<Rightarrow> bool" where
  "P_opt adj s st =
     (\<forall>v \<in> set (d_visited st). \<forall>dv d. d_dist st v = Some dv \<longrightarrow> walk adj s v d \<longrightarrow> dv \<le> d)"

definition P_vis_le :: "dstate \<Rightarrow> bool" where
  "P_vis_le st =
     (\<forall>x \<in> set (d_visited st). \<forall>dx v d. d_dist st x = Some dx \<longrightarrow> (v, d) \<in> set (d_pq st) \<longrightarrow> dx \<le> d)"

definition P_closed :: "adjacency \<Rightarrow> nat set \<Rightarrow> dstate \<Rightarrow> bool" where
  "P_closed adj C st =
     (\<forall>x \<in> C. \<forall>e \<in> set (edges_of adj x). \<forall>dx. d_dist st x = Some dx \<longrightarrow>
        (\<exists>dv. d_dist st (e_to e) = Some dv \<and> dv \<le> js_add dx (e_dist e))
        \<or> js_Infinity \<le> js_add dx (e_dist e))"

definition opt_inv :: "adjacency \<Rightarrow> nat \<Rightarrow> nat set \<Rightarrow> dstate \<Rightarrow> bool" where
  "opt_inv adj s C st =
     (C \<subseteq> set (d_visited st) \<and> P_opt adj s st \<and> P_vis_le st \<and> P_closed adj C st)"

subsection \<open>Removing the minimum\<close>

lemma set_remove_nth_subset: "set (take m q @ drop (Suc m) q) \<subseteq> set q"
  by (auto dest: in_set_takeD in_set_dropD)

lemma set_remove_nth_rest:
  assumes "m < length q"
  shows "set q \<subseteq> insert (q ! m) (set (take m q @ drop (Suc m) q))"
proof -
  have "q = take m q @ q ! m # drop (Suc m) q" using assms by (rule id_take_nth_drop)
  then have "set q = set (take m q @ q ! m # drop (Suc m) q)" by (rule arg_cong)
  also have "\<dots> \<subseteq> insert (q ! m) (set (take m q @ drop (Suc m) q))" by auto
  finally show ?thesis .
qed

lemma pq_min:
  assumes "(v, d) \<in> set q"
  shows "snd (q ! min_index q) \<le> d"
proof -
  from assms obtain i where "i < length q" "q ! i = (v, d)" by (auto simp: in_set_conv_nth)
  then show ?thesis using min_index_min[of i q] by simp
qed

lemma struct_invD:
  assumes "struct_inv adj s st"
  shows "P_walk adj s st" "P_pq st" "P_first s st" "P_prev adj s st"
  using assms by (simp_all add: struct_inv_def)

lemma P_walkD:
  assumes "P_walk adj s st"
  shows "d_dist st s = Some 0" and "\<And>v d. d_dist st v = Some d \<Longrightarrow> walk adj s v d"
  using assms unfolding P_walk_def by blast+

lemma P_pqD:
  assumes "P_pq st"
  shows "\<And>v d. (v, d) \<in> set (d_pq st) \<Longrightarrow> \<exists>dv. d_dist st v = Some dv \<and> dv \<le> d"
    and "\<And>v d. d_dist st v = Some d \<Longrightarrow> v \<notin> set (d_visited st) \<Longrightarrow> (v, d) \<in> set (d_pq st)"
    and "\<And>v. v \<in> set (d_visited st) \<Longrightarrow> \<exists>d. d_dist st v = Some d"
  using assms unfolding P_pq_def by blast+

lemma P_firstD:
  assumes "P_first s st"
  shows "distinct (d_visited st)"
    and "d_visited st = [] \<Longrightarrow> d_prev st = Map.empty"
    and "\<And>v d. d_visited st = [] \<Longrightarrow> d_dist st v = Some d \<Longrightarrow> v = s"
    and "d_visited st \<noteq> [] \<Longrightarrow> hd (d_visited st) = s"
  using assms unfolding P_first_def by auto

lemma P_prevD:
  assumes "P_prev adj s st"
  shows "\<And>v u. d_prev st v = Some u \<Longrightarrow> v \<noteq> s"
    and "\<And>v u. d_prev st v = Some u \<Longrightarrow> u \<in> set (d_visited st)"
    and "\<And>v u. d_prev st v = Some u \<Longrightarrow> v \<in> set (d_visited st) \<Longrightarrow> before (d_visited st) u v"
    and "\<And>v u. d_prev st v = Some u \<Longrightarrow>
           \<exists>du e. d_dist st u = Some du \<and> e \<in> set (edges_of adj u) \<and> e_to e = v
                \<and> d_dist st v = Some (js_add du (e_dist e))"
    and "\<And>v d. d_dist st v = Some d \<Longrightarrow> v = s \<or> (\<exists>u. d_prev st v = Some u)"
  using assms unfolding P_prev_def by blast+

lemma P_pqI:
  assumes "\<And>v d. (v, d) \<in> set (d_pq st) \<Longrightarrow> \<exists>dv. d_dist st v = Some dv \<and> dv \<le> d"
    and "\<And>v d. d_dist st v = Some d \<Longrightarrow> v \<notin> set (d_visited st) \<Longrightarrow> (v, d) \<in> set (d_pq st)"
    and "\<And>v. v \<in> set (d_visited st) \<Longrightarrow> \<exists>d. d_dist st v = Some d"
  shows "P_pq st"
  using assms unfolding P_pq_def by blast

lemma P_prevI:
  assumes "\<And>v u. d_prev st v = Some u \<Longrightarrow> v \<noteq> s"
    and "\<And>v u. d_prev st v = Some u \<Longrightarrow> u \<in> set (d_visited st)"
    and "\<And>v u. d_prev st v = Some u \<Longrightarrow> v \<in> set (d_visited st) \<Longrightarrow> before (d_visited st) u v"
    and "\<And>v u. d_prev st v = Some u \<Longrightarrow>
           \<exists>du e. d_dist st u = Some du \<and> e \<in> set (edges_of adj u) \<and> e_to e = v
                \<and> d_dist st v = Some (js_add du (e_dist e))"
    and "\<And>v d. d_dist st v = Some d \<Longrightarrow> v = s \<or> (\<exists>u. d_prev st v = Some u)"
  shows "P_prev adj s st"
  using assms unfolding P_prev_def by blast

lemma start_visited:
  assumes "P_first s st" and "u \<in> set (d_visited st)"
  shows "s \<in> set (d_visited st)"
proof -
  from assms(2) have ne: "d_visited st \<noteq> []" by auto
  with assms(1) have "hd (d_visited st) = s" by (simp add: P_first_def)
  with ne show ?thesis by (metis hd_in_set)
qed

lemma before_append: "before vs u v \<Longrightarrow> before (vs @ [x]) u v"
  unfolding before_def by (metis append_Cons append_assoc)

lemma before_last: "u \<in> set vs \<Longrightarrow> before (vs @ [v]) u v"
  unfolding before_def by blast

lemma pop_visited_struct:
  assumes inv: "struct_inv adj s st"
    and sub: "set q' \<subseteq> set (d_pq st)"
    and rest: "set (d_pq st) \<subseteq> insert (u, du) (set q')"
    and u: "u \<in> set (d_visited st)"
  shows "struct_inv adj s (st\<lparr>d_pq := q'\<rparr>)"
proof -
  let ?st = "st\<lparr>d_pq := q'\<rparr>"
  note I = struct_invD[OF inv]
  have 1: "P_walk adj s ?st" using I(1) by (simp add: P_walk_def)
  have 2: "P_pq ?st"
  proof (rule P_pqI)
    fix v d assume "(v, d) \<in> set (d_pq ?st)"
    then have "(v, d) \<in> set (d_pq st)" using sub by auto
    then show "\<exists>dv. d_dist ?st v = Some dv \<and> dv \<le> d"
      using P_pqD(1)[OF I(2)] by simp
  next
    fix v d assume a: "d_dist ?st v = Some d" "v \<notin> set (d_visited ?st)"
    then have "(v, d) \<in> set (d_pq st)" using P_pqD(2)[OF I(2)] by simp
    moreover have "v \<noteq> u" using a(2) u by auto
    ultimately show "(v, d) \<in> set (d_pq ?st)" using rest by auto
  next
    fix v assume "v \<in> set (d_visited ?st)"
    then show "\<exists>d. d_dist ?st v = Some d" using P_pqD(3)[OF I(2)] by simp
  qed
  have 3: "P_first s ?st" using I(3) by (simp add: P_first_def)
  have 4: "P_prev adj s ?st" using I(4) by (simp add: P_prev_def)
  from 1 2 3 4 show ?thesis by (simp add: struct_inv_def)
qed

lemma pop_new_struct:
  assumes inv: "struct_inv adj s st"
    and sub: "set q' \<subseteq> set (d_pq st)"
    and rest: "set (d_pq st) \<subseteq> insert (u, du) (set q')"
    and mem: "(u, du) \<in> set (d_pq st)"
    and u: "u \<notin> set (d_visited st)"
  shows "struct_inv adj s (st\<lparr>d_pq := q', d_visited := d_visited st @ [u]\<rparr>)"
proof -
  let ?st = "st\<lparr>d_pq := q', d_visited := d_visited st @ [u]\<rparr>"
  note I = struct_invD[OF inv]
  from P_pqD(1)[OF I(2) mem] obtain du' where du: "d_dist st u = Some du'" by blast
  have 1: "P_walk adj s ?st" using I(1) by (simp add: P_walk_def)
  have 2: "P_pq ?st"
  proof (rule P_pqI)
    fix v d assume "(v, d) \<in> set (d_pq ?st)"
    then have "(v, d) \<in> set (d_pq st)" using sub by auto
    then show "\<exists>dv. d_dist ?st v = Some dv \<and> dv \<le> d"
      using P_pqD(1)[OF I(2)] by simp
  next
    fix v d assume a: "d_dist ?st v = Some d" "v \<notin> set (d_visited ?st)"
    then have "(v, d) \<in> set (d_pq st)" using P_pqD(2)[OF I(2)] by simp
    moreover have "v \<noteq> u" using a(2) by auto
    ultimately show "(v, d) \<in> set (d_pq ?st)" using rest by auto
  next
    fix v assume "v \<in> set (d_visited ?st)"
    then have "v \<in> set (d_visited st) \<or> v = u" by auto
    then show "\<exists>d. d_dist ?st v = Some d" using P_pqD(3)[OF I(2)] du by auto
  qed
  have 3: "P_first s ?st"
  proof (cases "d_visited st = []")
    case True
    with P_firstD(3)[OF I(3) _ du] have "u = s" by simp
    with True show ?thesis by (simp add: P_first_def)
  next
    case False
    with I(3) u show ?thesis by (simp add: P_first_def)
  qed
  have 4: "P_prev adj s ?st"
  proof (rule P_prevI)
    fix v w assume "d_prev ?st v = Some w"
    then have p: "d_prev st v = Some w" by simp
    show "v \<noteq> s" using P_prevD(1)[OF I(4) p] .
    show "w \<in> set (d_visited ?st)" using P_prevD(2)[OF I(4) p] by simp
    show "\<exists>dw e. d_dist ?st w = Some dw \<and> e \<in> set (edges_of adj w) \<and> e_to e = v
                \<and> d_dist ?st v = Some (js_add dw (e_dist e))"
      using P_prevD(4)[OF I(4) p] by simp
    assume "v \<in> set (d_visited ?st)"
    then consider "v \<in> set (d_visited st)" | "v = u" by auto
    then show "before (d_visited ?st) w v"
    proof cases
      case 1
      then show ?thesis using P_prevD(3)[OF I(4) p] by (simp add: before_append)
    next
      case 2
      then show ?thesis using P_prevD(2)[OF I(4) p] by (simp add: before_last)
    qed
  next
    fix v d assume "d_dist ?st v = Some d"
    then show "v = s \<or> (\<exists>w. d_prev ?st v = Some w)" using P_prevD(5)[OF I(4)] by simp
  qed
  from 1 2 3 4 show ?thesis by (simp add: struct_inv_def)
qed

lemma pop_dist:
  assumes inv: "struct_inv adj s st"
    and mem: "(u, du) \<in> set (d_pq st)"
    and u: "u \<notin> set (d_visited st)"
    and least: "\<forall>v d. (v, d) \<in> set (d_pq st) \<longrightarrow> du \<le> d"
  shows "d_dist st u = Some du"
proof -
  note I = struct_invD[OF inv]
  from P_pqD(1)[OF I(2) mem] obtain dv where dv: "d_dist st u = Some dv" "dv \<le> du" by blast
  with u have "(u, dv) \<in> set (d_pq st)" by (intro P_pqD(2)[OF I(2)])
  with least have "du \<le> dv" by blast
  with dv show ?thesis by simp
qed

lemma relax_cases:
  obtains (same) "relax u du e st = st"
      and "e_to e \<in> set (d_visited st)
           \<or> (\<exists>dv. d_dist st (e_to e) = Some dv \<and> dv \<le> js_add du (e_dist e))
           \<or> js_Infinity \<le> js_add du (e_dist e)"
  | (upd) "relax u du e st =
        st\<lparr>d_dist := (d_dist st)(e_to e \<mapsto> js_add du (e_dist e)),
             d_prev := (d_prev st)(e_to e \<mapsto> u),
             d_pq := d_pq st @ [(e_to e, js_add du (e_dist e))]\<rparr>"
      and "e_to e \<notin> set (d_visited st)"
      and "\<And>dv. d_dist st (e_to e) = Some dv \<Longrightarrow> js_add du (e_dist e) < dv"
proof (cases "e_to e \<in> set (d_visited st)")
  case True
  then have "relax u du e st = st" by (simp add: relax_def Let_def)
  with True same show ?thesis by blast
next
  case False
  show ?thesis
  proof (cases "case d_dist st (e_to e) of None \<Rightarrow> js_add du (e_dist e) < js_Infinity
                | Some dv \<Rightarrow> js_add du (e_dist e) < dv")
    case True
    with False have "relax u du e st =
        st\<lparr>d_dist := (d_dist st)(e_to e \<mapsto> js_add du (e_dist e)),
             d_prev := (d_prev st)(e_to e \<mapsto> u),
             d_pq := d_pq st @ [(e_to e, js_add du (e_dist e))]\<rparr>"
      by (simp add: relax_def Let_def)
    moreover have "\<And>dv. d_dist st (e_to e) = Some dv \<Longrightarrow> js_add du (e_dist e) < dv"
      using True by simp
    ultimately show ?thesis using False upd by blast
  next
    case nt: False
    then have "(\<exists>dv. d_dist st (e_to e) = Some dv \<and> dv \<le> js_add du (e_dist e))
           \<or> js_Infinity \<le> js_add du (e_dist e)"
      by (cases "d_dist st (e_to e)") auto
    moreover have "relax u du e st = st"
      using nt False by (simp add: relax_def Let_def)
    ultimately show ?thesis using same by blast
  qed
qed

lemma relax_struct:
  assumes inv: "struct_inv adj s st"
    and u: "u \<in> set (d_visited st)"
    and du: "d_dist st u = Some du"
    and e: "e \<in> set (edges_of adj u)"
  shows "struct_inv adj s (relax u du e st)"
proof (cases rule: relax_cases[where u=u and du=du and e=e and st=st])
  case same
  with inv show ?thesis by simp
next
  case upd
  let ?v = "e_to e"
  let ?nd = "js_add du (e_dist e)"
  let ?st = "st\<lparr>d_dist := (d_dist st)(?v \<mapsto> ?nd), d_prev := (d_prev st)(?v \<mapsto> u),
                 d_pq := d_pq st @ [(?v, ?nd)]\<rparr>"
  note I = struct_invD[OF inv]
  have s: "s \<in> set (d_visited st)" using start_visited[OF I(3) u] .
  have vs: "?v \<noteq> s" using s upd(2) by auto
  have vu: "?v \<noteq> u" using u upd(2) by auto
  have 1: "P_walk adj s ?st"
    unfolding P_walk_def
  proof (intro conjI allI impI)
    show "d_dist ?st s = Some 0" using P_walkD(1)[OF I(1)] vs by simp
  next
    fix x d assume a: "d_dist ?st x = Some d"
    show "walk adj s x d"
    proof (cases "x = ?v")
      case True
      with a have "d = ?nd" by simp
      moreover have "walk adj s ?v ?nd"
        using P_walkD(2)[OF I(1) du] e by (rule walk_step)
      ultimately show ?thesis using True by simp
    next
      case False
      with a show ?thesis using P_walkD(2)[OF I(1)] by simp
    qed
  qed
  have 2: "P_pq ?st"
  proof (rule P_pqI)
    fix x d assume "(x, d) \<in> set (d_pq ?st)"
    then consider "(x, d) \<in> set (d_pq st)" | "x = ?v" "d = ?nd" by auto
    then show "\<exists>dv. d_dist ?st x = Some dv \<and> dv \<le> d"
    proof cases
      case 1
      from P_pqD(1)[OF I(2) 1] obtain dv where dv: "d_dist st x = Some dv" "dv \<le> d" by blast
      show ?thesis
      proof (cases "x = ?v")
        case True
        with dv upd(3) have "?nd < dv" by simp
        with dv True show ?thesis by simp
      next
        case False
        with dv show ?thesis by simp
      qed
    next
      case 2
      then show ?thesis by simp
    qed
  next
    fix x d assume a: "d_dist ?st x = Some d" "x \<notin> set (d_visited ?st)"
    show "(x, d) \<in> set (d_pq ?st)"
    proof (cases "x = ?v")
      case True
      with a show ?thesis by simp
    next
      case False
      with a have "(x, d) \<in> set (d_pq st)" using P_pqD(2)[OF I(2)] by simp
      then show ?thesis by simp
    qed
  next
    fix x assume "x \<in> set (d_visited ?st)"
    then show "\<exists>d. d_dist ?st x = Some d" using P_pqD(3)[OF I(2)] by simp
  qed
  have 3: "P_first s ?st" using I(3) u by (auto simp: P_first_def)
  have 4: "P_prev adj s ?st"
  proof (rule P_prevI)
    fix y z assume p: "d_prev ?st y = Some z"
    show "y \<noteq> s"
    proof (cases "y = ?v")
      case True
      with vs show ?thesis by simp
    next
      case False
      with p show ?thesis using P_prevD(1)[OF I(4)] by simp
    qed
    show "z \<in> set (d_visited ?st)"
    proof (cases "y = ?v")
      case True
      with p u show ?thesis by simp
    next
      case False
      with p show ?thesis using P_prevD(2)[OF I(4)] by simp
    qed
    show "\<exists>dz e'. d_dist ?st z = Some dz \<and> e' \<in> set (edges_of adj z) \<and> e_to e' = y
                \<and> d_dist ?st y = Some (js_add dz (e_dist e'))"
    proof (cases "y = ?v")
      case True
      with p have "z = u" by simp
      with True du e vu show ?thesis by auto
    next
      case False
      with p have p': "d_prev st y = Some z" by simp
      from P_prevD(4)[OF I(4) p'] obtain dz e' where
        o: "d_dist st z = Some dz" "e' \<in> set (edges_of adj z)" "e_to e' = y"
           "d_dist st y = Some (js_add dz (e_dist e'))" by blast
      have "z \<noteq> ?v" using P_prevD(2)[OF I(4) p'] upd(2) by auto
      with o False show ?thesis by auto
    qed
    assume yv: "y \<in> set (d_visited ?st)"
    then have "y \<noteq> ?v" using upd(2) by auto
    with p have p': "d_prev st y = Some z" by simp
    from yv show "before (d_visited ?st) z y" using P_prevD(3)[OF I(4) p'] by simp
  next
    fix x d assume a: "d_dist ?st x = Some d"
    show "x = s \<or> (\<exists>w. d_prev ?st x = Some w)"
    proof (cases "x = ?v")
      case True
      then show ?thesis by simp
    next
      case False
      with a show ?thesis using P_prevD(5)[OF I(4)] by simp
    qed
  qed
  from 1 2 3 4 show ?thesis unfolding upd(1) by (simp add: struct_inv_def)
qed

lemma relax_dist_visited:
  assumes "x \<in> set (d_visited st)"
  shows "d_dist (relax u du e st) x = d_dist st x"
  by (cases rule: relax_cases[where u=u and du=du and e=e and st=st]) (use assms in auto)

lemma relax_dist_mono:
  assumes "d_dist st x = Some dx"
  shows "\<exists>dx'. d_dist (relax u du e st) x = Some dx' \<and> dx' \<le> dx"
proof (cases rule: relax_cases[where u=u and du=du and e=e and st=st])
  case same
  with assms show ?thesis by simp
next
  case upd
  show ?thesis
  proof (cases "x = e_to e")
    case True
    with upd(3) assms have "js_add du (e_dist e) < dx" by simp
    with True show ?thesis unfolding upd(1) by simp
  next
    case False
    with assms show ?thesis unfolding upd(1) by simp
  qed
qed

lemma fold_relax_struct:
  assumes "struct_inv adj s st" and "u \<in> set (d_visited st)" and "d_dist st u = Some du"
    and "set es \<subseteq> set (edges_of adj u)"
  shows "struct_inv adj s (fold (relax u du) es st)"
  using assms
proof (induction es arbitrary: st)
  case Nil
  then show ?case by simp
next
  case (Cons e es)
  have e: "e \<in> set (edges_of adj u)" using Cons.prems(4) by simp
  have 1: "struct_inv adj s (relax u du e st)"
    using Cons.prems(1,2,3) e by (rule relax_struct)
  have 2: "u \<in> set (d_visited (relax u du e st))" using Cons.prems(2) by simp
  have 3: "d_dist (relax u du e st) u = Some du"
    using relax_dist_visited[OF Cons.prems(2)] Cons.prems(3) by simp
  have 4: "set es \<subseteq> set (edges_of adj u)" using Cons.prems(4) by simp
  show ?case using Cons.IH[OF 1 2 3 4] by simp
qed

definition vis_le :: "dstate \<Rightarrow> real \<Rightarrow> bool" where
  "vis_le st du = (\<forall>x \<in> set (d_visited st). \<forall>dx. d_dist st x = Some dx \<longrightarrow> dx \<le> du)"

definition edge_done :: "dstate \<Rightarrow> real \<Rightarrow> edge \<Rightarrow> bool" where
  "edge_done st dx e =
     ((\<exists>dv. d_dist st (e_to e) = Some dv \<and> dv \<le> js_add dx (e_dist e))
      \<or> js_Infinity \<le> js_add dx (e_dist e))"

lemma walk_double:
  assumes "double_weights adj" and "walk adj s v d"
  shows "nonneg_double d"
  using assms(2)
proof (induction rule: walk.induct)
  case walk_start
  show ?case by (rule double_evals(1))
next
  case (walk_step u d e)
  have "nonneg_double (e_dist e)" using assms(1) walk_step.hyps(2) by (auto simp: double_weights_def)
  then have "0 \<le> e_dist e" by (simp add: nonneg_double_def)
  moreover have "0 \<le> d" using walk_step.IH by (simp add: nonneg_double_def)
  ultimately show ?case by (intro js_add_double)
qed

lemma dist_double:
  assumes "struct_inv adj s st" and "double_weights adj" and "d_dist st v = Some d"
  shows "nonneg_double d"
  using walk_double[OF assms(2) P_walkD(2)[OF struct_invD(1)[OF assms(1)] assms(3)]] .

lemma weight_nonneg:
  assumes "double_weights adj" and "e \<in> set (edges_of adj u)"
  shows "0 \<le> e_dist e"
  using assms by (auto simp: double_weights_def nonneg_double_def)

lemma opt_invD:
  assumes "opt_inv adj s C st"
  shows "C \<subseteq> set (d_visited st)"
    and "\<And>v dv d. v \<in> set (d_visited st) \<Longrightarrow> d_dist st v = Some dv \<Longrightarrow> walk adj s v d \<Longrightarrow> dv \<le> d"
    and "\<And>x dx v d. x \<in> set (d_visited st) \<Longrightarrow> d_dist st x = Some dx \<Longrightarrow> (v, d) \<in> set (d_pq st) \<Longrightarrow> dx \<le> d"
    and "\<And>x e dx. x \<in> C \<Longrightarrow> e \<in> set (edges_of adj x) \<Longrightarrow> d_dist st x = Some dx \<Longrightarrow>
            edge_done st dx e"
proof -
  from assms have a: "C \<subseteq> set (d_visited st)" "P_opt adj s st" "P_vis_le st" "P_closed adj C st"
    by (simp_all add: opt_inv_def)
  show "C \<subseteq> set (d_visited st)" by (rule a(1))
  show "\<And>v dv d. v \<in> set (d_visited st) \<Longrightarrow> d_dist st v = Some dv \<Longrightarrow> walk adj s v d \<Longrightarrow> dv \<le> d"
    using a(2) unfolding P_opt_def by blast
  show "\<And>x dx v d. x \<in> set (d_visited st) \<Longrightarrow> d_dist st x = Some dx \<Longrightarrow> (v, d) \<in> set (d_pq st) \<Longrightarrow> dx \<le> d"
    using a(3) unfolding P_vis_le_def by blast
  show "\<And>x e dx. x \<in> C \<Longrightarrow> e \<in> set (edges_of adj x) \<Longrightarrow> d_dist st x = Some dx \<Longrightarrow>
            edge_done st dx e"
    using a(4) unfolding P_closed_def edge_done_def by blast
qed

lemma opt_invI:
  assumes "C \<subseteq> set (d_visited st)"
    and "\<And>v dv d. v \<in> set (d_visited st) \<Longrightarrow> d_dist st v = Some dv \<Longrightarrow> walk adj s v d \<Longrightarrow> dv \<le> d"
    and "\<And>x dx v d. x \<in> set (d_visited st) \<Longrightarrow> d_dist st x = Some dx \<Longrightarrow> (v, d) \<in> set (d_pq st) \<Longrightarrow> dx \<le> d"
    and "\<And>x e dx. x \<in> C \<Longrightarrow> e \<in> set (edges_of adj x) \<Longrightarrow> d_dist st x = Some dx \<Longrightarrow>
            edge_done st dx e"
  shows "opt_inv adj s C st"
proof -
  have "P_opt adj s st" unfolding P_opt_def using assms(2) by blast
  moreover have "P_vis_le st" unfolding P_vis_le_def using assms(3) by blast
  moreover have "P_closed adj C st" unfolding P_closed_def using assms(4)[unfolded edge_done_def] by blast
  ultimately show ?thesis using assms(1) by (simp add: opt_inv_def)
qed

lemma edge_done_pq [simp]: "edge_done (st\<lparr>d_pq := q\<rparr>) dx e = edge_done st dx e"
  by (simp add: edge_done_def)

lemma edge_done_visited [simp]: "edge_done (st\<lparr>d_visited := vs\<rparr>) dx e = edge_done st dx e"
  by (simp add: edge_done_def)

lemma pop_visited_opt:
  assumes "opt_inv adj s C st" and "set q' \<subseteq> set (d_pq st)"
  shows "opt_inv adj s C (st\<lparr>d_pq := q'\<rparr>)"
proof (rule opt_invI)
  show "C \<subseteq> set (d_visited (st\<lparr>d_pq := q'\<rparr>))" using opt_invD(1)[OF assms(1)] by simp
next
  fix v dv d assume "v \<in> set (d_visited (st\<lparr>d_pq := q'\<rparr>))" "d_dist (st\<lparr>d_pq := q'\<rparr>) v = Some dv"
    "walk adj s v d"
  then show "dv \<le> d" using opt_invD(2)[OF assms(1)] by simp
next
  fix x dx v d assume "x \<in> set (d_visited (st\<lparr>d_pq := q'\<rparr>))" "d_dist (st\<lparr>d_pq := q'\<rparr>) x = Some dx"
    "(v, d) \<in> set (d_pq (st\<lparr>d_pq := q'\<rparr>))"
  then show "dx \<le> d" using opt_invD(3)[OF assms(1), of x dx v d] assms(2) by auto
next
  fix x e dx assume "x \<in> C" "e \<in> set (edges_of adj x)" "d_dist (st\<lparr>d_pq := q'\<rparr>) x = Some dx"
  then show "edge_done (st\<lparr>d_pq := q'\<rparr>) dx e"
    using opt_invD(4)[OF assms(1)] by simp
qed

text \<open>Every walk that ends outside the visited nodes weighs at least the least queue entry.\<close>

lemma least_lower_bound:
  assumes inv: "struct_inv adj s st" and opt: "opt_inv adj s (set (d_visited st)) st"
    and W: "double_weights adj"
    and least: "\<And>v d. (v, d) \<in> set (d_pq st) \<Longrightarrow> du \<le> d"
    and fin: "du \<le> js_Infinity"
    and w: "walk adj s x d"
  shows "x \<notin> set (d_visited st) \<Longrightarrow> du \<le> d"
  using w
proof (induction rule: walk.induct)
  case walk_start
  note I = struct_invD[OF inv]
  have "(s, 0) \<in> set (d_pq st)"
    using P_pqD(2)[OF I(2) P_walkD(1)[OF I(1)] walk_start] .
  then show ?case by (rule least)
next
  case (walk_step y d' e)
  note I = struct_invD[OF inv]
  have w0: "0 \<le> e_dist e" using W walk_step.hyps(2) by (rule weight_nonneg)
  have d': "nonneg_double d'" using W walk_step.hyps(1) by (rule walk_double)
  show ?case
  proof (cases "y \<in> set (d_visited st)")
    case True
    from P_pqD(3)[OF I(2) True] obtain dy where dy: "d_dist st y = Some dy" by blast
    have 1: "dy \<le> d'" using opt_invD(2)[OF opt True dy walk_step.hyps(1)] .
    have "nonneg_double dy" using inv W dy by (rule dist_double)
    then have "0 \<le> dy" by (simp add: nonneg_double_def)
    then have m: "js_add dy (e_dist e) \<le> js_add d' (e_dist e)" using 1 w0 by (rule js_add_mono)
    from opt_invD(4)[OF opt True walk_step.hyps(2) dy]
    have "edge_done st dy e" .
    then consider dx where "d_dist st (e_to e) = Some dx" "dx \<le> js_add dy (e_dist e)"
      | "js_Infinity \<le> js_add dy (e_dist e)"
      unfolding edge_done_def by blast
    then show ?thesis
    proof cases
      case 1
      have "(e_to e, dx) \<in> set (d_pq st)" using P_pqD(2)[OF I(2) 1(1) walk_step.prems] .
      then have "du \<le> dx" by (rule least)
      with 1(2) m show ?thesis by simp
    next
      case 2
      with m fin show ?thesis by simp
    qed
  next
    case False
    then have "du \<le> d'" by (rule walk_step.IH)
    moreover have "d' \<le> js_add d' (e_dist e)" using d' w0 by (rule js_add_infl)
    ultimately show ?thesis by simp
  qed
qed

lemma pop_new_opt:
  assumes inv: "struct_inv adj s st" and opt: "opt_inv adj s (set (d_visited st)) st"
    and W: "double_weights adj"
    and sub: "set q' \<subseteq> set (d_pq st)"
    and mem: "(u, du) \<in> set (d_pq st)"
    and u: "u \<notin> set (d_visited st)"
    and least: "\<And>v d. (v, d) \<in> set (d_pq st) \<Longrightarrow> du \<le> d"
  shows "opt_inv adj s (set (d_visited st)) (st\<lparr>d_pq := q', d_visited := d_visited st @ [u]\<rparr>)"
    and "vis_le (st\<lparr>d_pq := q', d_visited := d_visited st @ [u]\<rparr>) du"
proof -
  let ?st = "st\<lparr>d_pq := q', d_visited := d_visited st @ [u]\<rparr>"
  have du: "d_dist st u = Some du"
    using pop_dist[OF inv mem u] least by blast
  have "nonneg_double du" using inv W du by (rule dist_double)
  then have fin: "du \<le> js_Infinity" by (simp add: nonneg_double_def)
  show "opt_inv adj s (set (d_visited st)) ?st"
  proof (rule opt_invI)
    show "set (d_visited st) \<subseteq> set (d_visited ?st)" by auto
  next
    fix v dv d assume a: "v \<in> set (d_visited ?st)" "d_dist ?st v = Some dv" "walk adj s v d"
    show "dv \<le> d"
    proof (cases "v = u")
      case True
      with a du have "dv = du" by simp
      moreover have "du \<le> d"
        using least_lower_bound[OF inv opt W least fin a(3)] True u by simp
      ultimately show ?thesis by simp
    next
      case False
      with a show ?thesis using opt_invD(2)[OF opt, of v dv d] by simp
    qed
  next
    fix x dx v d assume a: "x \<in> set (d_visited ?st)" "d_dist ?st x = Some dx" "(v, d) \<in> set (d_pq ?st)"
    then have q: "(v, d) \<in> set (d_pq st)" using sub by auto
    show "dx \<le> d"
    proof (cases "x = u")
      case True
      with a du have "dx = du" by simp
      with least[OF q] show ?thesis by simp
    next
      case False
      with a q show ?thesis using opt_invD(3)[OF opt, of x dx v d] by simp
    qed
  next
    fix x e dx assume "x \<in> set (d_visited st)" "e \<in> set (edges_of adj x)" "d_dist ?st x = Some dx"
    then show "edge_done ?st dx e"
      using opt_invD(4)[OF opt] by simp
  qed
  show "vis_le ?st du"
    unfolding vis_le_def
  proof (intro ballI allI impI)
    fix x dx assume a: "x \<in> set (d_visited ?st)" "d_dist ?st x = Some dx"
    show "dx \<le> du"
    proof (cases "x = u")
      case True
      with a du show ?thesis by simp
    next
      case False
      with a show ?thesis using opt_invD(3)[OF opt _ _ mem, of x dx] by simp
    qed
  qed
qed

lemma relax_opt:
  assumes inv: "struct_inv adj s st" and opt: "opt_inv adj s C st"
    and W: "double_weights adj"
    and u: "u \<in> set (d_visited st)" and du: "d_dist st u = Some du"
    and le: "vis_le st du"
    and e: "e \<in> set (edges_of adj u)"
  shows "opt_inv adj s C (relax u du e st)"
    and "vis_le (relax u du e st) du"
    and "edge_done (relax u du e st) du e"
proof -
  note I = struct_invD[OF inv]
  have w0: "0 \<le> e_dist e" using W e by (rule weight_nonneg)
  have dd: "nonneg_double du" using inv W du by (rule dist_double)
  have infl: "du \<le> js_add du (e_dist e)" using dd w0 by (rule js_add_infl)
  have "opt_inv adj s C (relax u du e st) \<and> vis_le (relax u du e st) du
     \<and> edge_done (relax u du e st) du e"
  proof (cases rule: relax_cases[where u=u and du=du and e=e and st=st])
    case same
    have "edge_done st du e"
    proof (cases "e_to e \<in> set (d_visited st)")
      case True
      from P_pqD(3)[OF I(2) True] obtain dv where dv: "d_dist st (e_to e) = Some dv" by blast
      with le True have "dv \<le> du" by (auto simp: vis_le_def)
      with dv infl show ?thesis by (auto simp: edge_done_def)
    next
      case False
      with same(2) show ?thesis by (simp add: edge_done_def)
    qed
    with same(1) opt le show ?thesis by simp
  next
    case upd
    let ?v = "e_to e"
    let ?nd = "js_add du (e_dist e)"
    let ?st = "st\<lparr>d_dist := (d_dist st)(?v \<mapsto> ?nd), d_prev := (d_prev st)(?v \<mapsto> u),
                   d_pq := d_pq st @ [(?v, ?nd)]\<rparr>"
    have 1: "opt_inv adj s C ?st"
    proof (rule opt_invI)
      show "C \<subseteq> set (d_visited ?st)" using opt_invD(1)[OF opt] by simp
    next
      fix v dv d assume a: "v \<in> set (d_visited ?st)" "d_dist ?st v = Some dv" "walk adj s v d"
      then have "v \<noteq> ?v" using upd(2) by auto
      with a show "dv \<le> d" using opt_invD(2)[OF opt, of v dv d] by simp
    next
      fix x dx v d assume a: "x \<in> set (d_visited ?st)" "d_dist ?st x = Some dx" "(v, d) \<in> set (d_pq ?st)"
      then have xv: "x \<noteq> ?v" using upd(2) by auto
      with a have x: "x \<in> set (d_visited st)" "d_dist st x = Some dx" by simp_all
      from a(3) consider "(v, d) \<in> set (d_pq st)" | "d = ?nd" by auto
      then show "dx \<le> d"
      proof cases
        case 1
        then show ?thesis using opt_invD(3)[OF opt x] by simp
      next
        case 2
        have "dx \<le> du" using le x by (auto simp: vis_le_def)
        with 2 infl show ?thesis by simp
      qed
    next
      fix x e' dx assume a: "x \<in> C" "e' \<in> set (edges_of adj x)" "d_dist ?st x = Some dx"
      then have "x \<in> set (d_visited st)" using opt_invD(1)[OF opt] by auto
      then have "x \<noteq> ?v" using upd(2) by auto
      with a have x: "d_dist st x = Some dx" by simp
      from opt_invD(4)[OF opt a(1,2) x] have "edge_done st dx e'" .
      then consider dv where "d_dist st (e_to e') = Some dv" "dv \<le> js_add dx (e_dist e')"
        | "js_Infinity \<le> js_add dx (e_dist e')"
        unfolding edge_done_def by blast
      then show "edge_done ?st dx e'"
      proof cases
        case 1
        show ?thesis
        proof (cases "e_to e' = ?v")
          case True
          with 1 upd(3) have "?nd < dv" by simp
          with 1 True show ?thesis by (simp add: edge_done_def)
        next
          case False
          with 1 show ?thesis by (simp add: edge_done_def)
        qed
      next
        case 2
        then show ?thesis by (simp add: edge_done_def)
      qed
    qed
    have 2: "vis_le ?st du"
      unfolding vis_le_def
    proof (intro ballI allI impI)
      fix x dx assume a: "x \<in> set (d_visited ?st)" "d_dist ?st x = Some dx"
      then have "x \<noteq> ?v" using upd(2) by auto
      with a le show "dx \<le> du" by (auto simp: vis_le_def)
    qed
    have 3: "edge_done ?st du e" by (simp add: edge_done_def)
    from 1 2 3 show ?thesis unfolding upd(1) by blast
  qed
  then show "opt_inv adj s C (relax u du e st)"
    and "vis_le (relax u du e st) du"
    and "edge_done (relax u du e st) du e"
    by blast+
qed

lemma fold_relax_dist_mono:
  assumes "d_dist st x = Some dx"
  shows "\<exists>dx'. d_dist (fold (relax u du) es st) x = Some dx' \<and> dx' \<le> dx"
  using assms
proof (induction es arbitrary: st dx)
  case Nil
  then show ?case by simp
next
  case (Cons e es)
  from relax_dist_mono[OF Cons.prems, of u du e]
  obtain d1 where d1: "d_dist (relax u du e st) x = Some d1" "d1 \<le> dx" by blast
  from Cons.IH[OF d1(1)] obtain d2 where
    "d_dist (fold (relax u du) es (relax u du e st)) x = Some d2" "d2 \<le> d1" by blast
  with d1(2) show ?case by auto
qed

lemma fold_relax_edge_done:
  assumes "edge_done st dx e"
  shows "edge_done (fold (relax u du) es st) dx e"
proof -
  from assms consider dv where "d_dist st (e_to e) = Some dv" "dv \<le> js_add dx (e_dist e)"
    | "js_Infinity \<le> js_add dx (e_dist e)"
    unfolding edge_done_def by blast
  then show ?thesis
  proof cases
    case 1
    from fold_relax_dist_mono[OF 1(1), of u du es] 1(2) show ?thesis
      by (auto simp: edge_done_def)
  next
    case 2
    then show ?thesis by (simp add: edge_done_def)
  qed
qed

lemma fold_relax_dist_visited:
  assumes "x \<in> set (d_visited st)"
  shows "d_dist (fold (relax u du) es st) x = d_dist st x"
  using assms
proof (induction es arbitrary: st)
  case Nil
  then show ?case by simp
next
  case (Cons e es)
  have "x \<in> set (d_visited (relax u du e st))" using Cons.prems by simp
  from Cons.IH[OF this] show ?case using relax_dist_visited[OF Cons.prems] by simp
qed

lemma fold_relax_opt:
  assumes "struct_inv adj s st" and "opt_inv adj s C st" and "double_weights adj"
    and "u \<in> set (d_visited st)" and "d_dist st u = Some du" and "vis_le st du"
    and "set es \<subseteq> set (edges_of adj u)"
  shows "opt_inv adj s C (fold (relax u du) es st)
       \<and> (\<forall>e \<in> set es. edge_done (fold (relax u du) es st) du e)"
  using assms
proof (induction es arbitrary: st)
  case Nil
  then show ?case by simp
next
  case (Cons e es)
  let ?st = "relax u du e st"
  have e: "e \<in> set (edges_of adj u)" using Cons.prems(7) by simp
  note R = relax_opt[OF Cons.prems(1,2,3,4,5,6) e]
  have 1: "struct_inv adj s ?st" using Cons.prems(1,4,5) e by (rule relax_struct)
  have 4: "u \<in> set (d_visited ?st)" using Cons.prems(4) by simp
  have 5: "d_dist ?st u = Some du"
    using relax_dist_visited[OF Cons.prems(4)] Cons.prems(5) by simp
  have 7: "set es \<subseteq> set (edges_of adj u)" using Cons.prems(7) by simp
  note IH = Cons.IH[OF 1 R(1) Cons.prems(3) 4 5 R(2) 7]
  have "edge_done (fold (relax u du) es ?st) du e" using R(3) by (rule fold_relax_edge_done)
  with IH show ?case by simp
qed

inductive walk_on :: "adjacency \<Rightarrow> nat list \<Rightarrow> real \<Rightarrow> bool" for adj where
  walk_on_single: "walk_on adj [u] 0"
| walk_on_snoc: "walk_on adj (p @ [u]) d \<Longrightarrow> e \<in> set (edges_of adj u) \<Longrightarrow>
                   walk_on adj (p @ [u, e_to e]) (js_add d (e_dist e))"

lemma walk_on_nonempty: "walk_on adj p d \<Longrightarrow> p \<noteq> []"
  by (induction rule: walk_on.induct) simp_all

lemma walk_on_walk: "walk_on adj p d \<Longrightarrow> walk adj (hd p) (last p) d"
proof (induction rule: walk_on.induct)
  case (walk_on_single u)
  show ?case by (simp add: walk_start)
next
  case (walk_on_snoc p u d e)
  have "hd (p @ [u, e_to e]) = hd (p @ [u])" by (cases p) simp_all
  moreover have "walk adj (hd (p @ [u])) (e_to e) (js_add d (e_dist e))"
    using walk_on_snoc.IH walk_on_snoc.hyps(2) by (auto intro: walk_step)
  ultimately show ?case by simp
qed

lemma dijkstra_iter_eq:
  "dijkstra_iter adj t st =
     (let m = min_index (d_pq st); u = fst (d_pq st ! m); du = snd (d_pq st ! m);
          q' = take m (d_pq st) @ drop (Suc m) (d_pq st)
      in if u \<in> set (d_visited st) then (False, st\<lparr>d_pq := q'\<rparr>)
         else if u = t then (True, st\<lparr>d_pq := q', d_visited := d_visited st @ [u]\<rparr>)
         else (False, fold (relax u du) (edges_of adj u)
                        (st\<lparr>d_pq := q', d_visited := d_visited st @ [u]\<rparr>)))"
  by (simp add: dijkstra_iter_def Let_def edges_of_def split: option.splits)

lemma opt_inv_extend:
  assumes opt: "opt_inv adj s C st" and u: "u \<in> set (d_visited st)"
    and cl: "\<And>e dx. e \<in> set (edges_of adj u) \<Longrightarrow> d_dist st u = Some dx \<Longrightarrow> edge_done st dx e"
  shows "opt_inv adj s (insert u C) st"
proof (rule opt_invI)
  show "insert u C \<subseteq> set (d_visited st)" using opt_invD(1)[OF opt] u by simp
next
  fix v dv d assume "v \<in> set (d_visited st)" "d_dist st v = Some dv" "walk adj s v d"
  then show "dv \<le> d" by (rule opt_invD(2)[OF opt])
next
  fix x dx v d assume "x \<in> set (d_visited st)" "d_dist st x = Some dx" "(v, d) \<in> set (d_pq st)"
  then show "dx \<le> d" by (rule opt_invD(3)[OF opt])
next
  fix x e dx assume a: "x \<in> insert u C" "e \<in> set (edges_of adj x)" "d_dist st x = Some dx"
  show "edge_done st dx e"
  proof (cases "x = u")
    case True
    with a cl show ?thesis by blast
  next
    case False
    with a have "x \<in> C" by simp
    then show ?thesis using a(2,3) by (rule opt_invD(4)[OF opt])
  qed
qed

text \<open>One iteration of the main loop, structural part.\<close>

lemma iter_struct:
  assumes inv: "struct_inv adj s st" and ne: "d_pq st \<noteq> []" and t: "t \<notin> set (d_visited st)"
    and it: "dijkstra_iter adj t st = (b, st')"
  shows "struct_inv adj s st'" and "b \<Longrightarrow> t \<in> set (d_visited st')"
    and "\<not> b \<Longrightarrow> t \<notin> set (d_visited st')"
proof -
  let ?m = "min_index (d_pq st)"
  let ?u = "fst (d_pq st ! ?m)"
  let ?du = "snd (d_pq st ! ?m)"
  let ?q = "take ?m (d_pq st) @ drop (Suc ?m) (d_pq st)"
  let ?st2 = "st\<lparr>d_pq := ?q, d_visited := d_visited st @ [?u]\<rparr>"
  have m: "?m < length (d_pq st)" using ne by (rule min_index_less)
  then have mem: "(?u, ?du) \<in> set (d_pq st)" by (metis nth_mem prod.collapse)
  have sub: "set ?q \<subseteq> set (d_pq st)" by (rule set_remove_nth_subset)
  have rest: "set (d_pq st) \<subseteq> insert (?u, ?du) (set ?q)"
    using set_remove_nth_rest[OF m] by simp
  have least: "\<forall>v d. (v, d) \<in> set (d_pq st) \<longrightarrow> ?du \<le> d" using pq_min by blast
  have "struct_inv adj s st' \<and> (b \<longrightarrow> t \<in> set (d_visited st')) \<and> (\<not> b \<longrightarrow> t \<notin> set (d_visited st'))"
  proof (cases "?u \<in> set (d_visited st)")
    case True
    with it have r: "b = False" "st' = st\<lparr>d_pq := ?q\<rparr>"
      by (simp_all add: dijkstra_iter_eq Let_def)
    have "struct_inv adj s (st\<lparr>d_pq := ?q\<rparr>)" using inv sub rest True by (rule pop_visited_struct)
    with r t show ?thesis by simp
  next
    case False
    have s2: "struct_inv adj s ?st2" using inv sub rest mem False by (rule pop_new_struct)
    show ?thesis
    proof (cases "?u = t")
      case True
      with it False have r: "b = True" "st' = ?st2" by (simp_all add: dijkstra_iter_eq Let_def)
      with s2 True show ?thesis by simp
    next
      case neq: False
      with it False have r: "b = False" "st' = fold (relax ?u ?du) (edges_of adj ?u) ?st2"
        by (simp_all add: dijkstra_iter_eq Let_def)
      have du: "d_dist ?st2 ?u = Some ?du" using pop_dist[OF inv mem False least] by simp
      have "struct_inv adj s (fold (relax ?u ?du) (edges_of adj ?u) ?st2)"
        by (rule fold_relax_struct[OF s2 _ du]) simp_all
      with r t neq show ?thesis by auto
    qed
  qed
  then show "struct_inv adj s st'" and "b \<Longrightarrow> t \<in> set (d_visited st')"
    and "\<not> b \<Longrightarrow> t \<notin> set (d_visited st')" by blast+
qed

text \<open>One iteration of the main loop, optimality part (non-negative weights).\<close>

lemma iter_opt:
  assumes inv: "struct_inv adj s st" and opt: "opt_inv adj s (set (d_visited st)) st"
    and W: "double_weights adj" and ne: "d_pq st \<noteq> []"
    and it: "dijkstra_iter adj t st = (b, st')"
  shows "\<not> b \<Longrightarrow> opt_inv adj s (set (d_visited st')) st'" and "P_opt adj s st'"
proof -
  let ?m = "min_index (d_pq st)"
  let ?u = "fst (d_pq st ! ?m)"
  let ?du = "snd (d_pq st ! ?m)"
  let ?q = "take ?m (d_pq st) @ drop (Suc ?m) (d_pq st)"
  let ?st2 = "st\<lparr>d_pq := ?q, d_visited := d_visited st @ [?u]\<rparr>"
  let ?st3 = "fold (relax ?u ?du) (edges_of adj ?u) ?st2"
  have m: "?m < length (d_pq st)" using ne by (rule min_index_less)
  then have mem: "(?u, ?du) \<in> set (d_pq st)" by (metis nth_mem prod.collapse)
  have sub: "set ?q \<subseteq> set (d_pq st)" by (rule set_remove_nth_subset)
  have rest: "set (d_pq st) \<subseteq> insert (?u, ?du) (set ?q)"
    using set_remove_nth_rest[OF m] by simp
  have least: "\<And>v d. (v, d) \<in> set (d_pq st) \<Longrightarrow> ?du \<le> d" using pq_min by blast
  have "(\<not> b \<longrightarrow> opt_inv adj s (set (d_visited st')) st') \<and> P_opt adj s st'"
  proof (cases "?u \<in> set (d_visited st)")
    case True
    with it have r: "b = False" "st' = st\<lparr>d_pq := ?q\<rparr>"
      by (simp_all add: dijkstra_iter_eq Let_def)
    have "opt_inv adj s (set (d_visited st)) (st\<lparr>d_pq := ?q\<rparr>)"
      using opt sub by (rule pop_visited_opt)
    with r show ?thesis by (simp add: opt_inv_def)
  next
    case False
    have s2: "struct_inv adj s ?st2" using inv sub rest mem False by (rule pop_new_struct)
    note N = pop_new_opt[OF inv opt W sub mem False least]
    show ?thesis
    proof (cases "?u = t")
      case True
      with it False have r: "b = True" "st' = ?st2" by (simp_all add: dijkstra_iter_eq Let_def)
      with N(1) show ?thesis by (simp add: opt_inv_def)
    next
      case neq: False
      with it False have r: "b = False" "st' = ?st3"
        by (simp_all add: dijkstra_iter_eq Let_def)
      have least': "\<forall>v d. (v, d) \<in> set (d_pq st) \<longrightarrow> ?du \<le> d" using least by blast
      have du: "d_dist ?st2 ?u = Some ?du" using pop_dist[OF inv mem False least'] by simp
      have uv: "?u \<in> set (d_visited ?st2)" by simp
      have F: "opt_inv adj s (set (d_visited st)) ?st3
          \<and> (\<forall>e \<in> set (edges_of adj ?u). edge_done ?st3 ?du e)"
        by (rule fold_relax_opt[OF s2 N(1) W uv du N(2) order_refl])
      have du3: "d_dist ?st3 ?u = Some ?du"
        using fold_relax_dist_visited[OF uv, of ?u ?du "edges_of adj ?u"] du by simp
      have "opt_inv adj s (insert ?u (set (d_visited st))) ?st3"
      proof (rule opt_inv_extend)
        show "opt_inv adj s (set (d_visited st)) ?st3" using F by blast
        show "?u \<in> set (d_visited ?st3)" by simp
      next
        fix e dx assume "e \<in> set (edges_of adj ?u)" "d_dist ?st3 ?u = Some dx"
        with F du3 show "edge_done ?st3 dx e" by auto
      qed
      moreover have "set (d_visited ?st3) = insert ?u (set (d_visited st))" by simp
      ultimately have "opt_inv adj s (set (d_visited ?st3)) ?st3" by simp
      with r show ?thesis by (simp add: opt_inv_def)
    qed
  qed
  then show "\<not> b \<Longrightarrow> opt_inv adj s (set (d_visited st')) st'" and "P_opt adj s st'" by blast+
qed

lemma dijkstra_loop_struct:
  assumes "struct_inv adj s st" and "t \<notin> set (d_visited st)"
  shows "struct_inv adj s (dijkstra_loop adj t st)
       \<and> (t \<in> set (d_visited (dijkstra_loop adj t st)) \<or> d_pq (dijkstra_loop adj t st) = [])"
  using assms
proof (induction "length (d_pq st) + unvisited_degree adj (d_visited st)" arbitrary: st
    rule: less_induct)
  case less
  show ?case
  proof (cases "d_pq st = []")
    case True
    then have "dijkstra_loop adj t st = st" by (simp add: dijkstra_loop.simps[of adj t st])
    with less.prems True show ?thesis by simp
  next
    case False
    obtain b st' where it: "dijkstra_iter adj t st = (b, st')" by (cases "dijkstra_iter adj t st")
    note S = iter_struct[OF less.prems(1) False less.prems(2) it]
    show ?thesis
    proof (cases b)
      case True
      with it False have "dijkstra_loop adj t st = st'"
        by (simp add: dijkstra_loop.simps[of adj t st])
      with S(1) S(2)[OF True] show ?thesis by simp
    next
      case nb: False
      with it False have eq: "dijkstra_loop adj t st = dijkstra_loop adj t st'"
        by (simp add: dijkstra_loop.simps[of adj t st])
      have dec: "length (d_pq st') + unvisited_degree adj (d_visited st')
           < length (d_pq st) + unvisited_degree adj (d_visited st)"
        using False it nb by (intro dijkstra_iter_decreases) simp_all
      from less.hyps[OF dec S(1) S(3)[OF nb]] eq show ?thesis by simp
    qed
  qed
qed

lemma dijkstra_loop_opt:
  assumes "struct_inv adj s st" and "t \<notin> set (d_visited st)"
    and "opt_inv adj s (set (d_visited st)) st" and W: "double_weights adj"
  shows "P_opt adj s (dijkstra_loop adj t st)"
  using assms(1,2,3)
proof (induction "length (d_pq st) + unvisited_degree adj (d_visited st)" arbitrary: st
    rule: less_induct)
  case less
  show ?case
  proof (cases "d_pq st = []")
    case True
    then have "dijkstra_loop adj t st = st" by (simp add: dijkstra_loop.simps[of adj t st])
    with less.prems(3) show ?thesis by (simp add: opt_inv_def)
  next
    case False
    obtain b st' where it: "dijkstra_iter adj t st = (b, st')" by (cases "dijkstra_iter adj t st")
    note S = iter_struct[OF less.prems(1) False less.prems(2) it]
    note O = iter_opt[OF less.prems(1,3) W False it]
    show ?thesis
    proof (cases b)
      case True
      with it False have "dijkstra_loop adj t st = st'"
        by (simp add: dijkstra_loop.simps[of adj t st])
      with O(2) show ?thesis by simp
    next
      case nb: False
      with it False have eq: "dijkstra_loop adj t st = dijkstra_loop adj t st'"
        by (simp add: dijkstra_loop.simps[of adj t st])
      have dec: "length (d_pq st') + unvisited_degree adj (d_visited st')
           < length (d_pq st) + unvisited_degree adj (d_visited st)"
        using False it nb by (intro dijkstra_iter_decreases) simp_all
      from less.hyps[OF dec S(1) S(3)[OF nb] O(1)[OF nb]] eq show ?thesis by simp
    qed
  qed
qed

lemma initial_struct: "struct_inv adj s (initial_state s)"
proof -
  have 1: "P_walk adj s (initial_state s)"
    by (auto simp: P_walk_def initial_state_def walk_start split: if_splits)
  have 2: "P_pq (initial_state s)"
    by (auto simp: P_pq_def initial_state_def split: if_splits)
  have 3: "P_first s (initial_state s)"
    by (auto simp: P_first_def initial_state_def split: if_splits)
  have 4: "P_prev adj s (initial_state s)"
    by (auto simp: P_prev_def initial_state_def split: if_splits)
  from 1 2 3 4 show ?thesis by (simp add: struct_inv_def)
qed

lemma initial_opt: "opt_inv adj s (set (d_visited (initial_state s))) (initial_state s)"
  by (simp add: opt_inv_def P_opt_def P_vis_le_def P_closed_def initial_state_def)

lemma before_prefix:
  assumes "before vs u v" and "distinct vs" and "vs = vs1 @ v # vs2"
  shows "u \<in> set vs1"
proof -
  from assms(1) obtain a b where ab: "vs = a @ v # b" "u \<in> set a" by (auto simp: before_def)
  from assms(2) ab(1) have "v \<notin> set a" by auto
  moreover from assms(2) ab(1) have "v \<notin> set b" by auto
  moreover from ab(1) assms(3) have "a @ v # b = vs1 @ v # vs2" by simp
  ultimately have "a = vs1" by (metis append_Cons_eq_iff)
  with ab(2) show ?thesis by simp
qed

text \<open>Following the predecessor links from a visited node reaches the start node.\<close>

lemma reconstruct_visited:
  assumes inv: "struct_inv adj s st"
  shows "d_visited st = vs1 @ v # vs2 \<Longrightarrow> d_dist st v = Some dv \<Longrightarrow>
    \<exists>p. reconstruct (d_prev st) v acc = Some (p @ acc) \<and> hd p = s \<and> last p = v
        \<and> walk_on adj p dv"
proof (induction "length vs1" arbitrary: vs1 v vs2 dv acc rule: less_induct)
  case less
  note I = struct_invD[OF inv]
  have vV: "v \<in> set (d_visited st)" using less.prems(1) by simp
  show ?case
  proof (cases "v = s")
    case True
    have "d_prev st s = None"
    proof (cases "d_prev st s")
      case (Some u)
      from P_prevD(1)[OF I(4) Some] show ?thesis by simp
    qed simp
    then have "reconstruct (d_prev st) s acc = Some ([s] @ acc)"
      by (subst reconstruct.simps) simp
    moreover have "dv = 0" using P_walkD(1)[OF I(1)] less.prems(2) True by simp
    ultimately show ?thesis using True by (auto intro: walk_on_single)
  next
    case False
    with P_prevD(5)[OF I(4) less.prems(2)] obtain u where pu: "d_prev st v = Some u" by blast
    have bf: "before (d_visited st) u v" using P_prevD(3)[OF I(4) pu vV] .
    have "u \<in> set vs1" using bf P_firstD(1)[OF I(3)] less.prems(1) by (rule before_prefix)
    then obtain a b where ab: "vs1 = a @ u # b" by (auto simp: in_set_conv_decomp)
    then have len: "length a < length vs1" by simp
    have dec: "d_visited st = a @ u # (b @ v # vs2)" using less.prems(1) ab by simp
    from P_prevD(4)[OF I(4) pu] obtain du e where
      e: "d_dist st u = Some du" "e \<in> set (edges_of adj u)" "e_to e = v"
         "d_dist st v = Some (js_add du (e_dist e))" by blast
    from less.hyps[OF len dec e(1), of "v # acc"] obtain p where
      p: "reconstruct (d_prev st) u (v # acc) = Some (p @ v # acc)" "hd p = s" "last p = u"
         "walk_on adj p du" by blast
    have pne: "p \<noteq> []" using p(4) by (rule walk_on_nonempty)
    then obtain p0 where p0: "p = p0 @ [u]" using p(3) by (metis append_butlast_last_id)
    have "walk_on adj (p0 @ [u, e_to e]) (js_add du (e_dist e))"
      using p(4) e(2) unfolding p0 by (rule walk_on_snoc)
    then have w: "walk_on adj (p @ [v]) dv" using e(3,4) less.prems(2) p0 by simp
    have "reconstruct (d_prev st) v acc = Some ((p @ [v]) @ acc)"
      using pu p(1) by (subst reconstruct.simps) simp
    moreover have "hd (p @ [v]) = s" using pne p(2) by simp
    ultimately show ?thesis using w by (metis last_snoc)
  qed
qed

lemma final_end_visited:
  assumes inv: "struct_inv adj s st"
    and fin: "t \<in> set (d_visited st) \<or> d_pq st = []"
    and r: "\<not> (d_prev st t = None \<and> s \<noteq> t)"
  shows "t \<in> set (d_visited st)"
proof (rule ccontr)
  assume nt: "t \<notin> set (d_visited st)"
  note I = struct_invD[OF inv]
  have "\<exists>d. d_dist st t = Some d"
  proof (cases "s = t")
    case True
    with P_walkD(1)[OF I(1)] show ?thesis by blast
  next
    case False
    with r obtain u where "d_prev st t = Some u" by auto
    from P_prevD(4)[OF I(4) this] show ?thesis by blast
  qed
  then obtain d where "d_dist st t = Some d" by blast
  from P_pqD(2)[OF I(2) this nt] fin nt show False by auto
qed

lemma dijkstra_unfold:
  "dijkstra adj s t =
     (let st = dijkstra_loop adj t (initial_state s)
      in if d_prev st t = None \<and> s \<noteq> t then Some None
         else map_option Some (reconstruct (d_prev st) t []))"
  by (simp add: dijkstra_def)

text \<open>The search always returns: either null or a path.\<close>

lemma dijkstra_path:
  assumes "dijkstra adj s t \<noteq> Some None"
  shows "\<exists>p d. dijkstra adj s t = Some (Some p) \<and> hd p = s \<and> last p = t \<and> walk_on adj p d
           \<and> (double_weights adj \<longrightarrow> (\<forall>d'. walk adj s t d' \<longrightarrow> d \<le> d'))"
proof -
  let ?st = "dijkstra_loop adj t (initial_state s)"
  have t0: "t \<notin> set (d_visited (initial_state s))" by (simp add: initial_state_def)
  from dijkstra_loop_struct[OF initial_struct t0]
  have inv: "struct_inv adj s ?st" and fin: "t \<in> set (d_visited ?st) \<or> d_pq ?st = []"
    by blast+
  from assms have r: "\<not> (d_prev ?st t = None \<and> s \<noteq> t)"
    by (auto simp: dijkstra_unfold Let_def split: if_splits)
  then have eq: "dijkstra adj s t = map_option Some (reconstruct (d_prev ?st) t [])"
    by (auto simp: dijkstra_unfold Let_def)
  have tv: "t \<in> set (d_visited ?st)" using inv fin r by (rule final_end_visited)
  then obtain vs1 vs2 where dec: "d_visited ?st = vs1 @ t # vs2"
    by (auto simp: in_set_conv_decomp)
  from P_pqD(3)[OF struct_invD(2)[OF inv] tv] obtain dt where dt: "d_dist ?st t = Some dt"
    by blast
  from reconstruct_visited[OF inv dec dt, of "[]"] obtain p where
    p: "reconstruct (d_prev ?st) t [] = Some p" "hd p = s" "last p = t" "walk_on adj p dt"
    by auto
  have "double_weights adj \<longrightarrow> (\<forall>d'. walk adj s t d' \<longrightarrow> dt \<le> d')"
  proof (intro impI allI)
    fix d' assume W: "double_weights adj" and w: "walk adj s t d'"
    have "P_opt adj s ?st" using initial_struct t0 initial_opt W by (rule dijkstra_loop_opt)
    with tv dt w show "dt \<le> d'" unfolding P_opt_def by blast
  qed
  with p eq show ?thesis by auto
qed

lemma dijkstra_total: "\<exists>r. dijkstra adj s t = Some r"
  using dijkstra_path[of adj s t] by (cases "dijkstra adj s t = Some None") auto

lemma dijkstra_unreachable:
  assumes "\<And>d. \<not> walk adj s t d"
  shows "dijkstra adj s t = Some None"
proof (rule ccontr)
  assume "dijkstra adj s t \<noteq> Some None"
  from dijkstra_path[OF this] obtain p d where "hd p = s" "last p = t" "walk_on adj p d" by blast
  with walk_on_walk[of adj p d] assms show False by simp
qed

definition has_edge :: "adjacency \<Rightarrow> nat \<Rightarrow> nat \<Rightarrow> bool" where
  "has_edge adj a b = (\<exists>e \<in> set (edges_of adj a). e_to e = b)"

definition symmetric :: "adjacency \<Rightarrow> bool" where
  "symmetric adj = (\<forall>a b. has_edge adj a b \<longrightarrow> has_edge adj b a)"

lemma map_of_map_upd:
  "map_of (map (\<lambda>(k, es). if k = a then (k, f es) else (k, es)) adj) u
     = (if u = a then map_option f (map_of adj u) else map_of adj u)"
  by (induction adj) auto

lemma edges_of_addEdge:
  "edges_of (addEdge a b d n adj) u
     = (if u = a then edges_of adj a @ [\<lparr>e_to = b, e_dist = d, e_name = n\<rparr>] else edges_of adj u)"
proof (cases "map_of adj a")
  case None
  then show ?thesis
    by (auto simp: edges_of_def addEdge_def Let_def map_of_map_upd map_add_def split: option.splits)
next
  case (Some es)
  then show ?thesis
    by (auto simp: edges_of_def addEdge_def Let_def map_of_map_upd split: option.splits)
qed

lemma has_edge_addEdge:
  "has_edge (addEdge a b d n adj) x y \<longleftrightarrow> has_edge adj x y \<or> (x = a \<and> y = b)"
  by (auto simp: has_edge_def edges_of_addEdge)

lemma link_symmetric: "symmetric adj \<Longrightarrow> symmetric (link nodes name ab adj)"
  by (auto simp: symmetric_def link_def Let_def has_edge_addEdge split: prod.splits option.splits)

lemma fold_link_symmetric: "symmetric adj \<Longrightarrow> symmetric (fold (link nodes name) ps adj)"
  by (induction ps arbitrary: adj) (simp_all add: link_symmetric)

lemma build_adj_symmetric: "symmetric (build_adj nodes ways)"
proof -
  have "symmetric adj \<Longrightarrow> symmetric (fold (add_way nodes) ws adj)" for ws adj
    by (induction ws arbitrary: adj) (simp_all add: add_way_def fold_link_symmetric)
  moreover have "symmetric []" by (simp add: symmetric_def has_edge_def edges_of_def)
  ultimately show ?thesis by (simp add: build_adj_def)
qed

lemma walk_on_edges:
  "walk_on adj p d \<Longrightarrow> Suc i < length p \<Longrightarrow> has_edge adj (p ! i) (p ! Suc i)"
proof (induction arbitrary: i rule: walk_on.induct)
  case (walk_on_single u)
  then show ?case by simp
next
  case (walk_on_snoc p u d e)
  show ?case
  proof (cases "Suc i < length (p @ [u])")
    case True
    then have "has_edge adj ((p @ [u]) ! i) ((p @ [u]) ! Suc i)" by (rule walk_on_snoc.IH)
    moreover have "(p @ [u, e_to e]) ! i = (p @ [u]) ! i" "(p @ [u, e_to e]) ! Suc i = (p @ [u]) ! Suc i"
      using True by (simp_all add: nth_append)
    ultimately show ?thesis by simp
  next
    case False
    with walk_on_snoc.prems have i: "i = length p" by simp
    then have "(p @ [u, e_to e]) ! i = u" "(p @ [u, e_to e]) ! Suc i = e_to e"
      by (simp_all add: nth_append)
    with walk_on_snoc.hyps(2) show ?thesis by (auto simp: has_edge_def)
  qed
qed

definition edge_weight :: "adjacency \<Rightarrow> nat \<Rightarrow> nat \<Rightarrow> real" where
  "edge_weight adj a b =
     (case find (\<lambda>e. e_to e = b) (edges_of adj a) of None \<Rightarrow> 0 | Some e \<Rightarrow> e_dist e)"

fun exact_weight :: "adjacency \<Rightarrow> nat list \<Rightarrow> real" where
  "exact_weight adj (a # b # p) = edge_weight adj a b + exact_weight adj (b # p)"
| "exact_weight adj p = 0"


subsection \<open>A graph on which a sum is absorbed\<close>

definition absorb_adj :: adjacency where
  "absorb_adj =
     [(1, [\<lparr>e_to = 2, e_dist = 1 / 9007199254740992, e_name = None\<rparr>,
           \<lparr>e_to = 3, e_dist = 1, e_name = None\<rparr>]),
      (2, [\<lparr>e_to = 1, e_dist = 1 / 9007199254740992, e_name = None\<rparr>,
           \<lparr>e_to = 4, e_dist = 1, e_name = None\<rparr>]),
      (3, [\<lparr>e_to = 1, e_dist = 1, e_name = None\<rparr>,
           \<lparr>e_to = 4, e_dist = 0, e_name = None\<rparr>]),
      (4, [\<lparr>e_to = 2, e_dist = 1, e_name = None\<rparr>,
           \<lparr>e_to = 3, e_dist = 0, e_name = None\<rparr>])]"

lemma min_index_single: "min_index [x] = 0"
  by (simp add: min_index_def)

lemma min_index_pair: "min_index [x, y] = (if snd y < snd x then 1 else 0)"
  by (simp add: min_index_def)

lemma below_Infinity: "1 < js_Infinity" "1 < js_Infinity * 9007199254740992"
  using js_Infinity_ge by simp_all

lemma absorb_loop:
  "dijkstra_loop absorb_adj 4 (initial_state 1)
     = \<lparr>d_dist = [1 \<mapsto> 0, 2 \<mapsto> 1 / 9007199254740992, 3 \<mapsto> 1, 4 \<mapsto> 1],
        d_prev = [2 \<mapsto> 1, 3 \<mapsto> 1, 4 \<mapsto> 2],
        d_visited = [1, 2, 3, 4], d_pq = []\<rparr>"
  apply (subst dijkstra_loop.simps)
  apply (simp add: initial_state_def dijkstra_iter_def min_index_single min_index_pair relax_def
      absorb_adj_def Let_def js_add_evals below_Infinity)
  apply (subst dijkstra_loop.simps)
  apply (simp add: dijkstra_iter_def min_index_single min_index_pair relax_def Let_def
      js_add_evals below_Infinity)
  apply (subst dijkstra_loop.simps)
  apply (simp add: dijkstra_iter_def min_index_single min_index_pair relax_def Let_def
      js_add_evals below_Infinity)
  apply (subst dijkstra_loop.simps)
  apply (simp add: dijkstra_iter_def min_index_single min_index_pair relax_def Let_def
      js_add_evals below_Infinity)
  done

lemma absorb_dijkstra: "dijkstra absorb_adj 1 4 = Some (Some [1, 2, 4])"
  apply (simp only: dijkstra_unfold absorb_loop Let_def)
  apply simp
  apply (subst reconstruct.simps, simp)
  apply (subst reconstruct.simps, simp)
  apply (subst reconstruct.simps, simp)
  done

lemma absorb_edges:
  "edges_of absorb_adj a =
     (if a = 1 then [\<lparr>e_to = 2, e_dist = 1 / 9007199254740992, e_name = None\<rparr>,
                     \<lparr>e_to = 3, e_dist = 1, e_name = None\<rparr>]
      else if a = 2 then [\<lparr>e_to = 1, e_dist = 1 / 9007199254740992, e_name = None\<rparr>,
                          \<lparr>e_to = 4, e_dist = 1, e_name = None\<rparr>]
      else if a = 3 then [\<lparr>e_to = 1, e_dist = 1, e_name = None\<rparr>,
                          \<lparr>e_to = 4, e_dist = 0, e_name = None\<rparr>]
      else if a = 4 then [\<lparr>e_to = 2, e_dist = 1, e_name = None\<rparr>,
                          \<lparr>e_to = 3, e_dist = 0, e_name = None\<rparr>]
      else [])"
  by (simp add: edges_of_def absorb_adj_def)

lemma absorb_nodes:
  obtains "a = 1" | "a = 2" | "a = 3" | "a = 4" | "edges_of absorb_adj a = []"
  using absorb_edges[of a] by (cases "a = 1"; cases "a = 2"; cases "a = 3"; cases "a = 4") simp_all

lemma absorb_has_edge:
  "has_edge absorb_adj a b
     = ((a, b) \<in> set [(1, 2), (1, 3), (2, 1), (2, 4), (3, 1), (3, 4), (4, 2), (4, 3)])"
proof (cases rule: absorb_nodes[of a])
  case 1
  then show ?thesis by (simp add: has_edge_def absorb_edges eq_commute)
next
  case 2
  then show ?thesis by (simp add: has_edge_def absorb_edges eq_commute)
next
  case 3
  then show ?thesis by (simp add: has_edge_def absorb_edges eq_commute)
next
  case 4
  then show ?thesis by (simp add: has_edge_def absorb_edges eq_commute)
next
  case 5
  moreover from 5 have "a \<noteq> 1" "a \<noteq> 2" "a \<noteq> 3" "a \<noteq> 4"
    using absorb_edges[of a] by (auto split: if_splits)
  ultimately show ?thesis by (simp add: has_edge_def)
qed

lemma absorb_symmetric: "symmetric absorb_adj"
  unfolding symmetric_def absorb_has_edge by simp

lemma absorb_double: "double_weights absorb_adj"
  unfolding double_weights_def
proof (intro allI ballI)
  fix u e assume e: "e \<in> set (edges_of absorb_adj u)"
  show "nonneg_double (e_dist e)"
  proof (cases rule: absorb_nodes[of u])
    case 1
    with e double_evals show ?thesis by (auto simp: absorb_edges)
  next
    case 2
    with e double_evals show ?thesis by (auto simp: absorb_edges)
  next
    case 3
    with e double_evals show ?thesis by (auto simp: absorb_edges)
  next
    case 4
    with e double_evals show ?thesis by (auto simp: absorb_edges)
  next
    case 5
    with e show ?thesis by simp
  qed
qed


text \<open>
  C3, as the script does it. For every pair of nodes \<open>s\<close>, \<open>t\<close> (so for every consecutive
  pair of mapped waypoints, the wrap-around pair included) and every adjacency map: when
  the search returns a path, the path starts at \<open>s\<close>, ends at \<open>t\<close>, and every two
  consecutive nodes of it are joined by an edge of the map, in both directions when the
  map is symmetric, as every map built by \<open>buildGraph\<close> is. When the weights are doubles
  that are not negative, the weight accumulated along the path from \<open>s\<close> on, one double
  addition per edge (which is how the search computes it), is the least such weight of
  all walks from \<open>s\<close> to \<open>t\<close>.
\<close>

theorem dijkstra_shortest_path:
  assumes "dijkstra adj s t = Some (Some p)"
  shows "p \<noteq> [] \<and> hd p = s \<and> last p = t
       \<and> (\<forall>i. Suc i < length p \<longrightarrow> has_edge adj (p ! i) (p ! Suc i))
       \<and> (symmetric adj \<longrightarrow> (\<forall>i. Suc i < length p \<longrightarrow> has_edge adj (p ! Suc i) (p ! i)))
       \<and> symmetric (build_adj nodes ways)
       \<and> (\<exists>d. walk_on adj p d
             \<and> (double_weights adj \<longrightarrow>
                   (\<forall>p' d'. walk_on adj p' d' \<and> hd p' = s \<and> last p' = t \<longrightarrow> d \<le> d')))"
proof -
  from assms have "dijkstra adj s t \<noteq> Some None" by simp
  from dijkstra_path[OF this] assms obtain d where
    p: "hd p = s" "last p = t" "walk_on adj p d"
    and opt: "double_weights adj \<longrightarrow> (\<forall>d'. walk adj s t d' \<longrightarrow> d \<le> d')"
    by auto
  have ne: "p \<noteq> []" using p(3) by (rule walk_on_nonempty)
  have edges: "has_edge adj (p ! i) (p ! Suc i)" if "Suc i < length p" for i
    using p(3) that by (rule walk_on_edges)
  have backw: "has_edge adj (p ! Suc i) (p ! i)" if "symmetric adj" "Suc i < length p" for i
    using edges[OF that(2)] that(1) by (simp add: symmetric_def)
  have "d \<le> d'" if "double_weights adj" "walk_on adj p' d'" "hd p' = s" "last p' = t" for p' d'
    using walk_on_walk[OF that(2)] that(1,3,4) opt by simp
  with ne p edges backw build_adj_symmetric[of nodes ways] show ?thesis by blast
qed

theorem dijkstra_shortest_path_witness:
  "dijkstra absorb_adj 1 4 = Some (Some [1, 2, 4])
   \<and> symmetric absorb_adj \<and> double_weights absorb_adj
   \<and> has_edge absorb_adj 2 1 \<and> has_edge absorb_adj 4 2
   \<and> (\<exists>d. walk_on absorb_adj [1, 2, 4] d
         \<and> (\<forall>p' d'. walk_on absorb_adj p' d' \<and> hd p' = 1 \<and> last p' = 4 \<longrightarrow> d \<le> d'))"
proof -
  note T = dijkstra_shortest_path[OF absorb_dijkstra, of "Map.empty" "[]"]
  from T absorb_symmetric have r: "\<forall>i. Suc i < length [1::nat, 2, 4]
      \<longrightarrow> has_edge absorb_adj ([1, 2, 4] ! Suc i) ([1, 2, 4] ! i)" by blast
  have e: "has_edge absorb_adj 2 1" "has_edge absorb_adj 4 2"
    using spec[OF r, of 0] spec[OF r, of 1] by simp_all
  from T absorb_double have "\<exists>d. walk_on absorb_adj [1, 2, 4] d
         \<and> (\<forall>p' d'. walk_on absorb_adj p' d' \<and> hd p' = 1 \<and> last p' = 4 \<longrightarrow> d \<le> d')"
    by blast
  with e absorb_dijkstra absorb_symmetric absorb_double show ?thesis by blast
qed


text \<open>
  The exact sum of the weights of the path need not be the least. On this graph the sum
  \<open>2^-53 + 1\<close> is rounded to \<open>1\<close>, node 4 is reached through node 2 at the accumulated
  weight \<open>1\<close>, and the edge of weight 0 from node 3 does not improve on it
  (\<open>1 + 0 < 1\<close> is false): the search returns \<open>[1, 2, 4]\<close>, of exact weight \<open>1 + 2^-53\<close>,
  and not \<open>[1, 3, 4]\<close>, of exact weight 1.
\<close>

theorem dijkstra_not_minimal_counterexample:
  "dijkstra absorb_adj 1 4 = Some (Some [1, 2, 4])
   \<and> has_edge absorb_adj 1 3 \<and> has_edge absorb_adj 3 4
   \<and> exact_weight absorb_adj [1, 3, 4] = 1
   \<and> exact_weight absorb_adj [1, 2, 4] = 1 + 1 / 9007199254740992
   \<and> exact_weight absorb_adj [1, 3, 4] < exact_weight absorb_adj [1, 2, 4]"
proof -
  have "has_edge absorb_adj 1 3" "has_edge absorb_adj 3 4"
    by (simp_all add: has_edge_def edges_of_def absorb_adj_def)
  moreover have "exact_weight absorb_adj [1, 3, 4] = 1"
    "exact_weight absorb_adj [1, 2, 4] = 1 + 1 / 9007199254740992"
    by (simp_all add: edge_weight_def edges_of_def absorb_adj_def)
  ultimately show ?thesis by (simp only: absorb_dijkstra) simp
qed

end
